theory Spec2Isabelle
  imports Complex_Main "HOL-Library.Multiset" "HOL-Library.Char_ord" "HOL-Library.List_Lexorder"
begin

text \<open>
  A model of the functions of \<open>tools/vis_gradcam.py\<close> that select pixels, map
  coordinates, name files, compute the overlap of saliency and classes, crop, and keep
  the bounds of the saliency values, with the properties proved of them. The
  definitions come first, in the order of the sections below; the proofs follow.
\<close>

section \<open>Python values and errors\<close>

text \<open>
  A function of the source that raises returns the error as a value: \<open>Inl\<close> of the
  exception class, \<open>Inr\<close> of the result otherwise.
\<close>

datatype py_error =
  AssertionError | TypeError | ValueError | KeyError | IndexError | ZeroDivisionError

subsection \<open>range(start, stop, step)\<close>

text \<open>
  \<open>range\<close> with a zero step raises ValueError. Otherwise it has \<open>range_len\<close> elements,
  the k-th being \<open>start + k * step\<close>: those before \<open>stop\<close> in the direction of the step.
\<close>

definition range_len :: "int \<Rightarrow> int \<Rightarrow> int \<Rightarrow> nat" where
  "range_len start stop step =
     (if 0 < step then (if start < stop then nat ((stop - start - 1) div step + 1) else 0)
      else (if stop < start then nat ((start - stop - 1) div (- step) + 1) else 0))"

definition py_range :: "int \<Rightarrow> int \<Rightarrow> int \<Rightarrow> py_error + int list" where
  "py_range start stop step =
     (if step = 0 then Inl ValueError
      else Inr (map (\<lambda>k. start + int k * step) [0..<range_len start stop step]))"

section \<open>get_pixels\<close>

text \<open>
  The explicit coordinates of an axis (\<open>--pixel-i\<close>, \<open>nargs='*'\<close>) are a list of integers.
  The source only tests the argument for truth and iterates over it when it is true: the
  default 0 of the argument parser and the empty list are both false, and both are the
  empty list here. The range of an axis (\<open>--pixel-i-range\<close>, \<open>nargs=3\<close>) is \<open>None\<close> or three
  integers.
\<close>

type_synonym range_spec = "int \<times> int \<times> int"

text \<open>
  \<open>pixel_i or range(*pixel_i_range)\<close> (lines 106 and 110): the list when it is true,
  otherwise the range; unpacking \<open>None\<close> raises TypeError.
\<close>

definition list_or_range :: "int list \<Rightarrow> range_spec option \<Rightarrow> py_error + int list" where
  "list_or_range pixel_i pixel_i_range =
     (if pixel_i \<noteq> [] then Inr pixel_i
      else (case pixel_i_range of
              None \<Rightarrow> Inl TypeError
            | Some (start, stop, step) \<Rightarrow> py_range start stop step))"

text \<open>
  \<open>get_pixels\<close> (lines 103-114), statement by statement: the assertion on the rows, the
  rows, the assertion on the columns, the columns, then the pairs. \<open>sum(lists, [])\<close>
  concatenates the lists.
\<close>

definition get_pixels ::
  "int list \<Rightarrow> int list \<Rightarrow> range_spec option \<Rightarrow> range_spec option \<Rightarrow> bool
     \<Rightarrow> py_error + (int \<times> int) list" where
  "get_pixels pixel_i pixel_j pixel_i_range pixel_j_range cartesian_product =
     (if pixel_i \<noteq> [] \<and> pixel_i_range \<noteq> None then Inl AssertionError
      else case list_or_range pixel_i pixel_i_range of
        Inl e \<Rightarrow> Inl e
      | Inr pixel_is \<Rightarrow>
          if pixel_j \<noteq> [] \<and> pixel_j_range \<noteq> None then Inl AssertionError
          else case list_or_range pixel_j pixel_j_range of
            Inl e \<Rightarrow> Inl e
          | Inr pixel_js \<Rightarrow>
              if cartesian_product
              then Inr (concat (map (\<lambda>j. map (\<lambda>i. (i, j)) pixel_is) pixel_js))
              else Inr (zip pixel_is pixel_js))"

text \<open>
  A valid axis specification: a non-empty explicit list and no range, or a range (its
  step not zero) and no explicit list.
\<close>

definition valid_axis :: "int list \<Rightarrow> range_spec option \<Rightarrow> bool" where
  "valid_axis pixel_i pixel_i_range =
     (case pixel_i_range of
        None \<Rightarrow> pixel_i \<noteq> []
      | Some (start, stop, step) \<Rightarrow> pixel_i = [] \<and> step \<noteq> 0)"

text \<open>
  The sequence of an axis as the specification describes it, to compare with what the
  source resolves: the explicit list, or else the half-open range from \<open>start\<close> to \<open>stop\<close>
  taken with the step. For a positive step these are the integers \<open>x\<close> with
  \<open>start \<le> x < stop\<close> that differ from \<open>start\<close> by a multiple of the step, ascending; for a
  negative step those with \<open>stop < x \<le> start\<close>, descending.
\<close>

definition range_values_spec :: "int \<Rightarrow> int \<Rightarrow> int \<Rightarrow> int list" where
  "range_values_spec start stop step =
     (if 0 < step then filter (\<lambda>x. (x - start) mod step = 0) [start..stop - 1]
      else rev (filter (\<lambda>x. (start - x) mod (- step) = 0) [stop + 1..start]))"

definition axis_values_spec :: "int list \<Rightarrow> range_spec option \<Rightarrow> int list" where
  "axis_values_spec pixel_i pixel_i_range =
     (case pixel_i_range of
        None \<Rightarrow> pixel_i
      | Some (start, stop, step) \<Rightarrow> range_values_spec start stop step)"

section \<open>crop\<close>

text \<open>
  Slicing \<open>xs[start:stop]\<close> with integer bounds: a negative bound counts from the end, and
  both bounds are clamped to \<open>[0, len]\<close>.
\<close>

definition py_slice :: "'a list \<Rightarrow> int \<Rightarrow> int \<Rightarrow> 'a list" where
  "py_slice xs start stop =
     (let n = int (length xs);
          lo = (if start < 0 then max (start + n) 0 else min start n);
          hi = (if stop < 0 then max (stop + n) 0 else min stop n)
      in take (nat (hi - lo)) (drop (nat lo) xs))"

text \<open>
  \<open>crop\<close> on the two spatial axes of the array. The flag \<open>is_tensor\<close> of the source only
  selects which two axes are spatial (the last two of a tensor, the first two of a raw
  image); the other axes are kept whole, so an element of type \<open>'a\<close> stands for whatever
  lies along them.
\<close>

definition crop_slices :: "int \<Rightarrow> int \<Rightarrow> int \<Rightarrow> (int \<times> int) \<times> (int \<times> int)" where
  "crop_slices i j crop_size =
     (let half = crop_size div 2;
          slice_i = (max (i - half) 0, i + half);
          slice_j = (max (j - half) 0, j + half)
      in (slice_i, slice_j))"

definition crop :: "int \<Rightarrow> int \<Rightarrow> int \<Rightarrow> 'a list list \<Rightarrow> 'a list list" where
  "crop i j crop_size img =
     (case crop_slices i j crop_size of
        (slice_i, slice_j) \<Rightarrow>
          map (\<lambda>row. py_slice row (fst slice_j) (snd slice_j))
              (py_slice img (fst slice_i) (snd slice_i)))"

text \<open>The elements of \<open>xs\<close> at the indices \<open>k\<close> with \<open>lo \<le> k < hi\<close> that exist in \<open>xs\<close>.\<close>

definition window :: "'a list \<Rightarrow> int \<Rightarrow> int \<Rightarrow> 'a list" where
  "window xs lo hi = map (\<lambda>k. xs ! k) [nat lo ..< min (nat hi) (length xs)]"

section \<open>Saliency bounds in the run loop\<close>

record bounds =
  minimum :: real
  maximum :: real

text \<open>Line 388 (and line 456): \<open>maximum, minimum = -1000, 0\<close>.\<close>

definition starting_bounds :: bounds where
  "starting_bounds = \<lparr>minimum = 0, maximum = - 1000\<rparr>"

text \<open>
  Lines 327-328. The region's extrema \<open>float(gradcam_region.max())\<close> and
  \<open>float(gradcam_region.min())\<close> come from the saliency method, a black box: an
  observation is that pair of values.
\<close>

type_synonym observation = "real \<times> real"

definition update_bounds :: "bounds \<Rightarrow> observation \<Rightarrow> bounds" where
  "update_bounds b obs =
     (case obs of (region_max, region_min) \<Rightarrow>
        \<lparr>minimum = min region_min (minimum b), maximum = max region_max (maximum b)\<rparr>)"

text \<open>
  \<open>generate_and_save_saliency\<close>, as far as the bounds go: the loop over the target layers
  updates the bounds once per layer and logs them (line 329). The result is the list of
  the logged bounds, in order.
\<close>

fun generate_and_save_saliency :: "bounds \<Rightarrow> observation list \<Rightarrow> bounds list" where
  "generate_and_save_saliency b [] = []"
| "generate_and_save_saliency b (obs # layers) =
     (let b' = update_bounds b obs in b' # generate_and_save_saliency b' layers)"

text \<open>
  The body of \<open>run\<close> for one image index: the bounds are set to the starting bounds and
  logged (lines 388-389), whatever they were before; then every call of
  \<open>generate_and_save_saliency\<close> for this image (one for a whole-image method, one per
  pixel otherwise, none when the image is skipped) continues from the bounds the
  previous call left.
\<close>

fun calls_loop :: "bounds \<Rightarrow> observation list list \<Rightarrow> bounds list" where
  "calls_loop b [] = []"
| "calls_loop b (layers # calls) =
     (let logged = generate_and_save_saliency b layers
      in logged @ calls_loop (last (b # logged)) calls)"

definition run_image :: "bounds \<Rightarrow> observation list list \<Rightarrow> bounds list" where
  "run_image b calls = starting_bounds # calls_loop starting_bounds calls"

text \<open>\<open>run\<close>: the loop over the image indices; one list of logged bounds per image.\<close>

fun run :: "bounds \<Rightarrow> observation list list list \<Rightarrow> bounds list list" where
  "run b [] = []"
| "run b (calls # images) =
     (let logged = run_image b calls in logged # run (last logged) images)"

section \<open>generate_fname\<close>

text \<open>
  The values of the keyword dictionary are the image index, the pixel coordinates
  (integers) and the suffix (a string); an f-string renders an integer in decimal and a
  string as itself.
\<close>

datatype py_value = IntV int | StrV string

definition digit_char :: "nat \<Rightarrow> char" where
  "digit_char d = ''0123456789'' ! d"

fun str_nat :: "nat \<Rightarrow> string" where
  "str_nat n = (if n < 10 then [digit_char n] else str_nat (n div 10) @ [digit_char (n mod 10)])"

definition str_int :: "int \<Rightarrow> string" where
  "str_int i = (if i < 0 then CHR ''-'' # str_nat (nat (- i)) else str_nat (nat i))"

fun format_value :: "py_value \<Rightarrow> string" where
  "format_value (IntV i) = str_int i"
| "format_value (StrV s) = s"

text \<open>
  A dictionary is the list of its items in insertion order, with distinct keys.
  \<open>dict_pop\<close> removes a key.
\<close>

type_synonym kwargs = "(string \<times> py_value) list"

definition dict_pop :: "string \<Rightarrow> kwargs \<Rightarrow> kwargs" where
  "dict_pop key kw = filter (\<lambda>item. fst item \<noteq> key) kw"

text \<open>\<open>sep.join(parts)\<close>\<close>

fun join :: "string \<Rightarrow> string list \<Rightarrow> string" where
  "join sep [] = []"
| "join sep [p] = p"
| "join sep (p # q # parts) = p @ sep @ join sep (q # parts)"

text \<open>The first loop (lines 166-169): the keys of \<open>order\<close>, skipping those not in the dictionary.\<close>

fun order_loop :: "string list \<Rightarrow> kwargs \<Rightarrow> string list \<Rightarrow> kwargs \<times> string list" where
  "order_loop [] kw parts = (kw, parts)"
| "order_loop (key # order) kw parts =
     (case map_of kw key of
        None \<Rightarrow> order_loop order kw parts
      | Some v \<Rightarrow> order_loop order (dict_pop key kw) (parts @ [key @ ''-'' @ format_value v]))"

text \<open>
  The second loop (lines 170-171) runs over \<open>sorted(kwargs)\<close>, a list made before the loop
  starts; \<open>kwargs.pop(key)\<close> raises KeyError for a key that is not there.
\<close>

fun sorted_loop :: "string list \<Rightarrow> kwargs \<Rightarrow> string list \<Rightarrow> py_error + string list" where
  "sorted_loop [] kw parts = Inr parts"
| "sorted_loop (key # keys) kw parts =
     (case map_of kw key of
        None \<Rightarrow> Inl KeyError
      | Some v \<Rightarrow> sorted_loop keys (dict_pop key kw) (parts @ [key @ ''-'' @ format_value v]))"

definition generate_fname :: "kwargs \<Rightarrow> string list \<Rightarrow> py_error + string" where
  "generate_fname kwargs order =
     (case order_loop order kwargs [] of
        (kw, parts) \<Rightarrow>
          (case sorted_loop (sort (map fst kw)) kw parts of
             Inl e \<Rightarrow> Inl e
           | Inr parts' \<Rightarrow> Inr (join ''-'' parts')))"

definition default_order :: "string list" where
  "default_order = [''image'', ''pixel_i'', ''pixel_j'']"

text \<open>The part \<open>key-value\<close> of a key of the dictionary.\<close>

definition key_value :: "kwargs \<Rightarrow> string \<Rightarrow> string" where
  "key_value kw key = key @ ''-'' @ format_value (the (map_of kw key))"

section \<open>compute_overlap\<close>

text \<open>
  The label map and the saliency map are two-dimensional arrays, given as the lists of
  their rows. Saliency values are real numbers here: the rounding of the floating-point
  sum and division is left out. \<open>GradCAM.normalize\<close> is defined in \<open>utils/gradcam.py\<close>,
  outside the source file modelled here: the parameter \<open>gradcam_normalize\<close> stands for
  \<open>GradCAM.normalize(gradcam)[0,0]\<close>.
\<close>

text \<open>\<open>np.unique\<close>: the distinct values, ascending.\<close>

definition np_unique :: "int list \<Rightarrow> int list" where
  "np_unique xs = sort (remdups xs)"

text \<open>
  \<open>gradcam[selector]\<close> for the mask \<open>selector = (label == cls)\<close>: the saliency values at
  the positions where the label is \<open>cls\<close>, row by row. A mask of another shape than the
  indexed array is an IndexError.
\<close>

definition masked_values :: "int list list \<Rightarrow> real list list \<Rightarrow> int \<Rightarrow> real list" where
  "masked_values label gradcam cls =
     map snd (filter (\<lambda>p. fst p = cls) (zip (concat label) (concat gradcam)))"

definition selector_sum :: "int list list \<Rightarrow> int \<Rightarrow> nat" where
  "selector_sum label cls = length (filter (\<lambda>l. l = cls) (concat label))"

text \<open>
  \<open>compute_overlap\<close> (lines 174-181). \<open>cls_to_mass\<close> is the list of the items of the
  dictionary, in insertion order (the classes ascending); \<open>cls_to_mass.pop(255)\<close> raises
  KeyError when 255 is not a key.
\<close>

definition compute_overlap ::
  "('g \<Rightarrow> real list list) \<Rightarrow> int list list \<Rightarrow> 'g \<Rightarrow> py_error + (int \<times> real) list" where
  "compute_overlap gradcam_normalize label gradcam =
     (let g = gradcam_normalize gradcam;
          classes = np_unique (concat label)
      in if classes \<noteq> [] \<and> map length g \<noteq> map length label then Inl IndexError
         else
           let cls_to_mass =
                 map (\<lambda>cls. (cls, sum_list (masked_values label g cls) /
                                  real (selector_sum label cls))) classes
           in if 255 \<in> fst ` set cls_to_mass
              then Inr (filter (\<lambda>item. fst item \<noteq> 255) cls_to_mass)
              else Inl KeyError)"

text \<open>The pixels of a class: the positions (row, column) of the label map that hold it.\<close>

definition pixels_of_class :: "int list list \<Rightarrow> int \<Rightarrow> (nat \<times> nat) set" where
  "pixels_of_class label cls =
     {(r, c). r < length label \<and> c < length (label ! r) \<and> label ! r ! c = cls}"

section \<open>get_random_pixels\<close>

text \<open>
  The module \<open>random\<close> is Python's standard library. Its generator is a global state of
  some type \<open>'g\<close>, passed explicitly here. Two parameters stand for the library:
  \<open>seed_state seed\<close> is the state that \<open>random.seed(seed)\<close> sets, and \<open>sampler g n k\<close> gives
  the positions that \<open>random.sample\<close> selects from a population of \<open>n\<close> elements for a
  sample of \<open>k\<close>, in the state \<open>g\<close>, with the state it leaves.
\<close>

type_synonym 'g sampler = "'g \<Rightarrow> nat \<Rightarrow> nat \<Rightarrow> nat list \<times> 'g"

text \<open>
  \<open>random.sample(population, k)\<close>: ValueError when \<open>k\<close> is negative or larger than the
  population, otherwise the elements at the chosen positions.
\<close>

definition random_sample ::
  "'g sampler \<Rightarrow> 'g \<Rightarrow> 'a list \<Rightarrow> int \<Rightarrow> (py_error + 'a list) \<times> 'g" where
  "random_sample sampler g population k =
     (if k < 0 \<or> int (length population) < k then (Inl ValueError, g)
      else (case sampler g (length population) (nat k) of
              (positions, g') \<Rightarrow> (Inr (map (\<lambda>p. population ! p) positions), g')))"

text \<open>
  What the library documents of \<open>random.sample\<close>: a sample of \<open>k \<le> n\<close> has \<open>k\<close> elements, at
  distinct positions of the population.
\<close>

definition sample_contract :: "'g sampler \<Rightarrow> bool" where
  "sample_contract sampler =
     (\<forall>g n k. k \<le> n \<longrightarrow>
        length (fst (sampler g n k)) = k \<and> distinct (fst (sampler g n k)) \<and>
        (\<forall>p \<in> set (fst (sampler g n k)). p < n))"

type_synonym pixel = "int \<times> int"

text \<open>
  \<open>bin_to_pixels\<close> is a dictionary from bins to lists of pixels: the list of its items in
  insertion order. \<open>bin_append\<close> is \<open>bin_to_pixels[bin].append(pixel)\<close> on a
  \<open>defaultdict\<close> of lists.
\<close>

type_synonym bin_dict = "(pixel \<times> pixel list) list"

fun bin_append :: "'k \<Rightarrow> 'v \<Rightarrow> ('k \<times> 'v list) list \<Rightarrow> ('k \<times> 'v list) list" where
  "bin_append bin p [] = [(bin, [p])]"
| "bin_append bin p ((bin', ps) # items) =
     (if bin' = bin then (bin', ps @ [p]) # items else (bin', ps) # bin_append bin p items)"

definition bin_of :: "int \<Rightarrow> pixel \<Rightarrow> pixel" where
  "bin_of bin_size p = (fst p div bin_size, snd p div bin_size)"

fun fill_bins :: "int \<Rightarrow> pixel list \<Rightarrow> bin_dict \<Rightarrow> bin_dict" where
  "fill_bins bin_size [] bin_to_pixels = bin_to_pixels"
| "fill_bins bin_size (p # pixels) bin_to_pixels =
     fill_bins bin_size pixels (bin_append (bin_of bin_size p) p bin_to_pixels)"

definition bin_lookup :: "bin_dict \<Rightarrow> pixel \<Rightarrow> pixel list" where
  "bin_lookup bin_to_pixels bin = (case map_of bin_to_pixels bin of None \<Rightarrow> [] | Some ps \<Rightarrow> ps)"

text \<open>The last loop (lines 224-227): one pixel of each list, at a sampled index.\<close>

fun pick_loop ::
  "'g sampler \<Rightarrow> 'g \<Rightarrow> pixel list list \<Rightarrow> pixel list \<Rightarrow> (py_error + pixel list) \<times> 'g" where
  "pick_loop sampler g [] pixels = (Inr pixels, g)"
| "pick_loop sampler g (pixels_per_bin # pixels_per_bins) pixels =
     (case random_sample sampler g [0..<length pixels_per_bin] 1 of
        (Inl e, g') \<Rightarrow> (Inl e, g')
      | (Inr indices, g') \<Rightarrow>
          pick_loop sampler g' pixels_per_bins (pixels @ [pixels_per_bin ! (indices ! 0)]))"

text \<open>
  \<open>get_random_pixels\<close>; \<open>g\<close> is the state of the generator when the function is called.
  The keys view given to \<open>random.sample\<close> is a set, which the library (before Python
  3.11) turns into the tuple of the keys in dictionary order.
\<close>

definition get_random_pixels ::
  "(int \<Rightarrow> 'g) \<Rightarrow> 'g sampler \<Rightarrow> int \<Rightarrow> pixel list \<Rightarrow> int \<Rightarrow> int \<Rightarrow> 'g
     \<Rightarrow> (py_error + pixel list) \<times> 'g" where
  "get_random_pixels seed_state sampler n pixels bin_size seed g =
     (let g0 = seed_state seed in
      if bin_size = 0 \<and> pixels \<noteq> [] then (Inl ZeroDivisionError, g0)
      else
        let bin_to_pixels = fill_bins bin_size pixels [] in
        if int (length bin_to_pixels) \<le> n
        then pick_loop sampler g0 (map snd bin_to_pixels) []
        else (case random_sample sampler g0 (map fst bin_to_pixels) n of
                (Inl e, g1) \<Rightarrow> (Inl e, g1)
              | (Inr bins, g1) \<Rightarrow>
                  pick_loop sampler g1 (map (bin_lookup bin_to_pixels) bins) []))"

text \<open>
  The invariant of \<open>bin_to_pixels\<close>: distinct keys, and every list non-empty and made of
  pixels of its bin.
\<close>

definition bins_ok :: "int \<Rightarrow> bin_dict \<Rightarrow> bool" where
  "bins_ok bin_size d =
     (distinct (map fst d) \<and>
      (\<forall>item \<in> set d. snd item \<noteq> [] \<and> (\<forall>p \<in> set (snd item). bin_of bin_size p = fst item)))"

text \<open>A generator that satisfies the contract, for evaluating on concrete inputs.\<close>

definition front_sampler :: "nat sampler" where
  "front_sampler g n k = ([0..<k], Suc g)"

section \<open>compute_output_coord\<close>

text \<open>
  The source computes in Python floats, IEEE 754 doubles: \<open>a / b\<close> on two integers is the
  exact quotient rounded to the nearest double, and \<open>i * ratio\<close> converts the integer to a
  double and rounds the exact product. A double is modelled as the rational number it
  denotes, and \<open>fl\<close> rounds a rational to the nearest number with 53 significant bits,
  ties to the even significand. The exponent range of doubles is not modelled: the
  sizes and coordinates of images are far inside it.
\<close>

text \<open>The number of bits of a positive integer.\<close>

function bitlen :: "int \<Rightarrow> int" where
  "bitlen n = (if n \<le> 0 then 0 else 1 + bitlen (n div 2))"
  by pat_completeness auto
termination
  by (relation "measure nat") auto

text \<open>For \<open>x > 0\<close>, the exponent \<open>e\<close> with \<open>2 ^ e \<le> x < 2 ^ (e + 1)\<close>.\<close>

definition ilog2 :: "rat \<Rightarrow> int" where
  "ilog2 x =
     (case quotient_of x of
        (p, q) \<Rightarrow>
          let d = bitlen p - bitlen q
          in if 2 powi d \<le> x then d else d - 1)"

definition round_half_even :: "rat \<Rightarrow> int" where
  "round_half_even y =
     (let f = \<lfloor>y\<rfloor>; r = y - of_int f
      in if r < 1 / 2 then f else if 1 / 2 < r then f + 1 else if even f then f else f + 1)"

definition fl :: "rat \<Rightarrow> rat" where
  "fl x =
     (if x = 0 then 0
      else let ulp = 2 powi (ilog2 \<bar>x\<bar> - 52)
           in of_int (round_half_even (x / ulp)) * ulp)"

text \<open>
  \<open>compute_output_coord\<close> (lines 116-120); \<open>int(np.floor(x))\<close> is the floor of the double.
\<close>

definition compute_output_coord ::
  "int \<Rightarrow> int \<Rightarrow> int \<times> int \<Rightarrow> int \<times> int \<Rightarrow> py_error + int \<times> int" where
  "compute_output_coord pixel_i pixel_j image_shape output_shape =
     (if fst image_shape = 0 \<or> snd image_shape = 0 then Inl ZeroDivisionError
      else
        let ratio_i = fl (of_int (fst output_shape) / of_int (fst image_shape));
            ratio_j = fl (of_int (snd output_shape) / of_int (snd image_shape));
            out_pixel_i = \<lfloor>fl (fl (of_int pixel_i) * ratio_i)\<rfloor>;
            out_pixel_j = \<lfloor>fl (fl (of_int pixel_j) * ratio_j)\<rfloor>
        in Inr (out_pixel_i, out_pixel_j))"

section \<open>The elements of a range\<close>

lemma le_div_iff_mult_le_int:
  assumes "0 < (s :: int)"
  shows "k \<le> a div s \<longleftrightarrow> k * s \<le> a"
proof
  assume "k \<le> a div s"
  then have "k * s \<le> (a div s) * s"
    using assms by (simp add: mult_right_mono)
  also have "\<dots> = a - a mod s"
    by (simp add: minus_mod_eq_div_mult)
  also have "\<dots> \<le> a"
    using assms by simp
  finally show "k * s \<le> a" .
next
  assume "k * s \<le> a"
  then have "(k * s) div s \<le> a div s"
    using assms by (rule zdiv_mono1)
  then show "k \<le> a div s"
    using assms by simp
qed

lemma range_len_pos:
  assumes "0 < step"
  shows "k < range_len start stop step \<longleftrightarrow> start + int k * step < stop"
proof (cases "start < stop")
  case True
  have "0 \<le> (stop - start - 1) div step"
    using True assms by (simp add: pos_imp_zdiv_nonneg_iff)
  then have "k < range_len start stop step \<longleftrightarrow> int k \<le> (stop - start - 1) div step"
    using True assms by (simp add: range_len_def) linarith
  also have "\<dots> \<longleftrightarrow> int k * step \<le> stop - start - 1"
    by (rule le_div_iff_mult_le_int[OF assms])
  finally show ?thesis by linarith
next
  case False
  have "0 \<le> int k * step" using assms by simp
  then have "\<not> start + int k * step < stop" using False by linarith
  then show ?thesis using False assms by (simp add: range_len_def)
qed

lemma range_len_neg:
  assumes "step < 0"
  shows "k < range_len start stop step \<longleftrightarrow> stop < start + int k * step"
proof (cases "stop < start")
  case True
  have s: "0 < - step" using assms by simp
  have "0 \<le> (start - stop - 1) div (- step)"
    using True s by (simp add: pos_imp_zdiv_nonneg_iff)
  then have "k < range_len start stop step \<longleftrightarrow> int k \<le> (start - stop - 1) div (- step)"
    using True assms by (simp add: range_len_def) linarith
  also have "\<dots> \<longleftrightarrow> int k * (- step) \<le> start - stop - 1"
    by (rule le_div_iff_mult_le_int[OF s])
  finally show ?thesis by simp linarith
next
  case False
  have "int k * step \<le> 0" using assms by (simp add: mult_nonneg_nonpos)
  then have "\<not> stop < start + int k * step" using False by linarith
  then show ?thesis using False assms by (simp add: range_len_def)
qed

lemma py_range_elements:
  assumes "step \<noteq> 0"
  shows "\<exists>xs. py_range start stop step = Inr xs \<and>
           (\<forall>k. k < length xs \<longleftrightarrow>
              (if 0 < step then start + int k * step < stop else stop < start + int k * step)) \<and>
           (\<forall>k < length xs. xs ! k = start + int k * step)"
proof (cases "0 < step")
  case True
  then show ?thesis using assms by (simp add: py_range_def range_len_pos)
next
  case False
  then have "step < 0" using assms by simp
  then show ?thesis using assms by (simp add: py_range_def range_len_neg)
qed

text \<open>The range of the source is the range of the specification.\<close>

lemma progression_set_pos:
  assumes "0 < (d :: int)"
  shows "(\<exists>k. x = a + int k * d \<and> x < b) \<longleftrightarrow> (a \<le> x \<and> x \<le> b - 1 \<and> (x - a) mod d = 0)"
proof
  assume "\<exists>k. x = a + int k * d \<and> x < b"
  then obtain k where k: "x = a + int k * d" and lt: "x < b" by blast
  have "0 \<le> int k * d" using assms by simp
  then have "a \<le> x" using k by linarith
  moreover have "(x - a) mod d = 0" using k by simp
  ultimately show "a \<le> x \<and> x \<le> b - 1 \<and> (x - a) mod d = 0" using lt by simp
next
  assume r: "a \<le> x \<and> x \<le> b - 1 \<and> (x - a) mod d = 0"
  then have "0 \<le> (x - a) div d"
    using assms by (simp add: pos_imp_zdiv_nonneg_iff)
  then have "int (nat ((x - a) div d)) * d = (x - a) div d * d" by simp
  also have "\<dots> = x - a" using r by (simp add: mod_eq_0_iff_dvd)
  finally have "x = a + int (nat ((x - a) div d)) * d" by simp
  then show "\<exists>k. x = a + int k * d \<and> x < b" using r by (intro exI[of _ "nat ((x - a) div d)"]) simp
qed

lemma range_values_pos:
  assumes "0 < step"
  shows "map (\<lambda>k. start + int k * step) [0..<range_len start stop step] =
         filter (\<lambda>x. (x - start) mod step = 0) [start..stop - 1]"
proof (rule sorted_distinct_set_unique)
  let ?f = "\<lambda>k. start + int k * step"
  let ?n = "range_len start stop step"
  have mono: "?f j \<le> ?f k" if "j < k" for j k
    using that assms by simp
  have "sorted_wrt (\<lambda>j k. ?f j \<le> ?f k) [0..<?n]"
    using sorted_wrt_upt[of 0 ?n] mono by (rule sorted_wrt_mono_rel[rotated]) 
  then show "sorted (map ?f [0..<?n])"
    by (simp only: sorted_map)
  have "inj_on ?f (set [0..<?n])"
    using assms by (intro inj_onI) simp
  then show "distinct (map ?f [0..<?n])"
    by (simp only: distinct_map distinct_upt simp_thms)
  show "sorted (filter (\<lambda>x. (x - start) mod step = 0) [start..stop - 1])"
    by (rule sorted_wrt_filter) (rule sorted_upto)
  show "distinct (filter (\<lambda>x. (x - start) mod step = 0) [start..stop - 1])"
    by (rule distinct_filter) (rule distinct_upto)
  show "set (map ?f [0..<?n]) = set (filter (\<lambda>x. (x - start) mod step = 0) [start..stop - 1])"
  proof (rule set_eqI)
    fix x
    have "x \<in> set (map ?f [0..<?n]) \<longleftrightarrow> (\<exists>k. k < ?n \<and> x = ?f k)"
      by (auto simp: image_iff)
    also have "\<dots> \<longleftrightarrow> (\<exists>k. x = start + int k * step \<and> x < stop)"
      using range_len_pos[OF assms, of _ start stop] by blast
    also have "\<dots> \<longleftrightarrow> (start \<le> x \<and> x \<le> stop - 1 \<and> (x - start) mod step = 0)"
      by (rule progression_set_pos[OF assms])
    also have "\<dots> \<longleftrightarrow> x \<in> set (filter (\<lambda>x. (x - start) mod step = 0) [start..stop - 1])"
      by auto
    finally show "x \<in> set (map ?f [0..<?n]) \<longleftrightarrow>
        x \<in> set (filter (\<lambda>x. (x - start) mod step = 0) [start..stop - 1])" .
  qed
qed


lemma progression_set_neg:
  assumes "0 < (d :: int)"
  shows "(\<exists>k. x = a - int k * d \<and> b < x) \<longleftrightarrow> (b + 1 \<le> x \<and> x \<le> a \<and> (a - x) mod d = 0)"
proof
  assume "\<exists>k. x = a - int k * d \<and> b < x"
  then obtain k where k: "x = a - int k * d" and lt: "b < x" by blast
  have "0 \<le> int k * d" using assms by simp
  then have "x \<le> a" using k by linarith
  moreover have "(a - x) mod d = 0" using k by simp
  ultimately show "b + 1 \<le> x \<and> x \<le> a \<and> (a - x) mod d = 0" using lt by simp
next
  assume r: "b + 1 \<le> x \<and> x \<le> a \<and> (a - x) mod d = 0"
  then have "0 \<le> (a - x) div d"
    using assms by (simp add: pos_imp_zdiv_nonneg_iff)
  then have "int (nat ((a - x) div d)) * d = (a - x) div d * d" by simp
  also have "\<dots> = a - x" using r by (simp add: mod_eq_0_iff_dvd)
  finally have "x = a - int (nat ((a - x) div d)) * d" by simp
  then show "\<exists>k. x = a - int k * d \<and> b < x" using r by (intro exI[of _ "nat ((a - x) div d)"]) simp
qed

lemma range_values_neg:
  assumes "step < 0"
  shows "map (\<lambda>k. start + int k * step) [0..<range_len start stop step] =
         rev (filter (\<lambda>x. (start - x) mod (- step) = 0) [stop + 1..start])"
proof -
  let ?f = "\<lambda>k. start + int k * step"
  let ?n = "range_len start stop step"
  let ?ys = "filter (\<lambda>x. (start - x) mod (- step) = 0) [stop + 1..start]"
  have d: "0 < - step" using assms by simp
  have "rev (map ?f [0..<?n]) = ?ys"
  proof (rule sorted_distinct_set_unique)
    have anti: "?f k \<le> ?f j" if "j < k" for j k
      using that assms by (simp add: mult_right_mono_neg)
    have "sorted_wrt (\<lambda>j k. ?f k \<le> ?f j) [0..<?n]"
      using sorted_wrt_upt[of 0 ?n] anti by (rule sorted_wrt_mono_rel[rotated])
    then show "sorted (rev (map ?f [0..<?n]))"
      by (simp only: rev_map sorted_map sorted_wrt_rev)
    have "inj_on ?f (set [0..<?n])"
      using assms by (intro inj_onI) simp
    then have "distinct (map ?f [0..<?n])"
      by (simp only: distinct_map distinct_upt simp_thms)
    then show "distinct (rev (map ?f [0..<?n]))"
      by (simp only: distinct_rev)
    show "sorted ?ys"
      by (rule sorted_wrt_filter) (rule sorted_upto)
    show "distinct ?ys"
      by (rule distinct_filter) (rule distinct_upto)
    show "set (rev (map ?f [0..<?n])) = set ?ys"
    proof (rule set_eqI)
      fix x
      have "x \<in> set (rev (map ?f [0..<?n])) \<longleftrightarrow> (\<exists>k. k < ?n \<and> x = ?f k)"
        by (auto simp: image_iff)
      also have "\<dots> \<longleftrightarrow> (\<exists>k. x = start + int k * step \<and> stop < x)"
        using range_len_neg[OF assms, of _ start stop] by blast
      also have "\<dots> \<longleftrightarrow> (\<exists>k. x = start - int k * (- step) \<and> stop < x)"
        by simp
      also have "\<dots> \<longleftrightarrow> (stop + 1 \<le> x \<and> x \<le> start \<and> (start - x) mod (- step) = 0)"
        by (rule progression_set_neg[OF d])
      also have "\<dots> \<longleftrightarrow> x \<in> set ?ys"
        by auto
      finally show "x \<in> set (rev (map ?f [0..<?n])) \<longleftrightarrow> x \<in> set ?ys" .
    qed
  qed
  then have "rev (rev (map ?f [0..<?n])) = rev ?ys" by (rule arg_cong)
  then show ?thesis by (simp only: rev_rev_ident)
qed

lemma py_range_spec:
  "step \<noteq> 0 \<Longrightarrow> py_range start stop step = Inr (range_values_spec start stop step)"
  using range_values_pos[of step start stop] range_values_neg[of step start stop]
  by (cases "0 < step") (simp_all add: py_range_def range_values_spec_def)

lemma list_or_range_spec:
  "valid_axis pixel_i pixel_i_range \<Longrightarrow>
   list_or_range pixel_i pixel_i_range = Inr (axis_values_spec pixel_i pixel_i_range)"
  by (auto simp: valid_axis_def list_or_range_def axis_values_spec_def py_range_spec
      split: option.splits)

section \<open>Properties of get_pixels\<close>

lemma valid_axis_resolves: "valid_axis xs r \<Longrightarrow> \<exists>vs. list_or_range xs r = Inr vs"
  by (auto simp: valid_axis_def list_or_range_def py_range_def split: option.splits)

lemma valid_axis_not_both: "valid_axis xs r \<Longrightarrow> \<not> (xs \<noteq> [] \<and> r \<noteq> None)"
  by (auto simp: valid_axis_def split: option.splits)

lemma get_pixels_resolved:
  assumes "valid_axis pixel_i pixel_i_range" and "valid_axis pixel_j pixel_j_range"
    and "list_or_range pixel_i pixel_i_range = Inr rows"
    and "list_or_range pixel_j pixel_j_range = Inr cols"
  shows "get_pixels pixel_i pixel_j pixel_i_range pixel_j_range cp =
           Inr (if cp then concat (map (\<lambda>j. map (\<lambda>i. (i, j)) rows) cols) else zip rows cols)"
  using assms valid_axis_not_both[OF assms(1)] valid_axis_not_both[OF assms(2)]
  by (simp add: get_pixels_def)

lemma mset_column_major_product:
  "mset (concat (map (\<lambda>j. map (\<lambda>i. (i, j)) rows) cols)) = mset (List.product rows cols)"
proof (induction rows)
  case Nil
  then show ?case by (induction cols) auto
next
  case (Cons r rows)
  have "mset (concat (map (\<lambda>j. map (\<lambda>i. (i, j)) (r # rows)) cols))
      = mset (map (Pair r) cols) + mset (concat (map (\<lambda>j. map (\<lambda>i. (i, j)) rows) cols))"
    by (induction cols) auto
  then show ?case using Cons by simp
qed

lemma length_column_major:
  "length (concat (map (\<lambda>j. map (\<lambda>i. (i, j)) rows) cols)) = length rows * length cols"
  by (induction cols) auto

lemma nth_column_major:
  "r < length rows \<Longrightarrow> q < length cols \<Longrightarrow>
   concat (map (\<lambda>j. map (\<lambda>i. (i, j)) rows) cols) ! (q * length rows + r) = (rows ! r, cols ! q)"
proof (induction cols arbitrary: q)
  case Nil
  then show ?case by simp
next
  case (Cons c cols)
  show ?case
  proof (cases q)
    case 0
    then show ?thesis using Cons.prems by (simp add: nth_append)
  next
    case (Suc q')
    then have "q' < length cols" using Cons.prems by simp
    from Cons.IH[OF Cons.prems(1) this] show ?thesis using Suc Cons.prems
      by (simp add: nth_append add.assoc)
  qed
qed

text \<open>
  Claim C1. When each axis is given either as a non-empty explicit list or as a range with
  a non-zero step (and not both), let \<open>rows\<close> and \<open>cols\<close> be the sequences the two axes
  denote: the explicit list, or the values of the range. Then \<open>get_pixels\<close> returns: with
  \<open>cartesian_product\<close> set, exactly \<open>|rows| * |cols|\<close> pairs, each combination of a row
  position and a column position occurring exactly once; otherwise exactly
  \<open>min |rows| |cols|\<close> pairs, the k-th being the k-th row value with the k-th column value.
\<close>

theorem get_pixels_sizes:
  assumes "valid_axis pixel_i pixel_i_range" and "valid_axis pixel_j pixel_j_range"
  shows "(\<exists>ps. get_pixels pixel_i pixel_j pixel_i_range pixel_j_range True = Inr ps \<and>
              length ps = length (axis_values_spec pixel_i pixel_i_range) *
                          length (axis_values_spec pixel_j pixel_j_range) \<and>
              mset ps = mset (List.product (axis_values_spec pixel_i pixel_i_range)
                                           (axis_values_spec pixel_j pixel_j_range))) \<and>
         (\<exists>ps. get_pixels pixel_i pixel_j pixel_i_range pixel_j_range False = Inr ps \<and>
              length ps = min (length (axis_values_spec pixel_i pixel_i_range))
                              (length (axis_values_spec pixel_j pixel_j_range)) \<and>
              (\<forall>k < length ps. ps ! k = (axis_values_spec pixel_i pixel_i_range ! k,
                                        axis_values_spec pixel_j pixel_j_range ! k)))"
proof -
  let ?rows = "axis_values_spec pixel_i pixel_i_range"
  let ?cols = "axis_values_spec pixel_j pixel_j_range"
  have rows: "list_or_range pixel_i pixel_i_range = Inr ?rows"
    by (rule list_or_range_spec[OF assms(1)])
  have cols: "list_or_range pixel_j pixel_j_range = Inr ?cols"
    by (rule list_or_range_spec[OF assms(2)])
  have cart: "get_pixels pixel_i pixel_j pixel_i_range pixel_j_range True =
                Inr (concat (map (\<lambda>j. map (\<lambda>i. (i, j)) ?rows) ?cols))"
    using get_pixels_resolved[OF assms rows cols, of True] by simp
  have zipped: "get_pixels pixel_i pixel_j pixel_i_range pixel_j_range False = Inr (zip ?rows ?cols)"
    using get_pixels_resolved[OF assms rows cols, of False] by simp
  show ?thesis
    using cart zipped
    by (simp add: length_column_major mset_column_major_product)
qed

theorem get_pixels_sizes_witness:
  "axis_values_spec [1, 2, 3] None = [1, 2, 3] \<and>
   axis_values_spec [] (Some (0, 4, 2)) = [0, 2] \<and>
   (\<exists>ps. get_pixels [1, 2, 3] [] None (Some (0, 4, 2)) True = Inr ps \<and>
         length ps = 6 \<and>
         mset ps = mset [(1, 0), (1, 2), (2, 0), (2, 2), (3, 0), (3, 2)]) \<and>
   (\<exists>ps. get_pixels [1, 2, 3] [] None (Some (0, 4, 2)) False = Inr ps \<and>
         length ps = 2 \<and> ps ! 0 = (1, 0) \<and> ps ! 1 = (2, 2))"
proof -
  have h1: "valid_axis [1, 2, 3] None" by (simp add: valid_axis_def)
  have h2: "valid_axis [] (Some (0, 4, 2))" by (simp add: valid_axis_def)
  have a1: "axis_values_spec [1, 2, 3] None = [1, 2, 3]"
    by (simp add: axis_values_spec_def)
  have a2: "axis_values_spec [] (Some (0, 4, 2)) = [0, 2]"
    by code_simp
  from get_pixels_sizes[OF h1 h2] a1 a2 show ?thesis
    by (simp only: a1 a2) auto
qed

text \<open>
  Claim C5 as stated: whenever one axis has both a non-empty explicit list and a range,
  \<open>get_pixels\<close> raises an assertion error. It fails when the conflict is on the column axis
  and the row axis raises first: here the row range has step 0, so \<open>range\<close> raises
  ValueError before the column assertion is reached.
\<close>

theorem get_pixels_both_counterexample:
  "[1] \<noteq> ([] :: int list) \<and> Some (0 :: int, 5 :: int, 1 :: int) \<noteq> None \<and>
   get_pixels [] [1] (Some (0, 10, 0)) (Some (0, 5, 1)) False = Inl ValueError"
  by (simp add: get_pixels_def list_or_range_def py_range_def)

text \<open>
  Claim C5, amended. Whenever one axis has both a non-empty explicit list and a range,
  \<open>get_pixels\<close> returns no pixel set. The error is the assertion error when the conflict is
  on the row axis, and also when it is on the column axis and the row axis resolves to a
  sequence; otherwise it is the error raised by resolving the row axis.
\<close>

theorem get_pixels_both_raises:
  assumes "(pixel_i \<noteq> [] \<and> pixel_i_range \<noteq> None) \<or> (pixel_j \<noteq> [] \<and> pixel_j_range \<noteq> None)"
  shows "(\<exists>e. get_pixels pixel_i pixel_j pixel_i_range pixel_j_range cp = Inl e) \<and>
         (pixel_i \<noteq> [] \<and> pixel_i_range \<noteq> None \<longrightarrow>
            get_pixels pixel_i pixel_j pixel_i_range pixel_j_range cp = Inl AssertionError) \<and>
         ((\<exists>rows. list_or_range pixel_i pixel_i_range = Inr rows) \<longrightarrow>
            get_pixels pixel_i pixel_j pixel_i_range pixel_j_range cp = Inl AssertionError) \<and>
         (\<forall>e. list_or_range pixel_i pixel_i_range = Inl e \<and> \<not> (pixel_i \<noteq> [] \<and> pixel_i_range \<noteq> None) \<longrightarrow>
            get_pixels pixel_i pixel_j pixel_i_range pixel_j_range cp = Inl e)"
  using assms
  by (cases "list_or_range pixel_i pixel_i_range") (auto simp: get_pixels_def)

theorem get_pixels_both_raises_witness:
  "get_pixels [1, 2] [3] (Some (0, 4, 1)) None True = Inl AssertionError \<and>
   get_pixels [1, 2] [3] None (Some (0, 4, 1)) False = Inl AssertionError \<and>
   get_pixels [] [3] None (Some (0, 4, 1)) False = Inl TypeError"
proof -
  have a: "get_pixels [1, 2] [3] (Some (0, 4, 1)) None True = Inl AssertionError"
    using get_pixels_both_raises[of "[1, 2]" "Some (0, 4, 1)" "[3]" None True] by simp
  have b: "get_pixels [1, 2] [3] None (Some (0, 4, 1)) False = Inl AssertionError"
    using get_pixels_both_raises[of "[1, 2]" None "[3]" "Some (0, 4, 1)" False]
    by (simp add: list_or_range_def)
  have c: "get_pixels [] [3] None (Some (0, 4, 1)) False = Inl TypeError"
    using get_pixels_both_raises[of "[]" None "[3]" "Some (0, 4, 1)" False]
    by (simp add: list_or_range_def)
  from a b c show ?thesis by simp
qed

text \<open>
  Claim C10. In cartesian mode the pairs are enumerated column-major: for resolved axes
  \<open>rows\<close> and \<open>cols\<close>, the element at position \<open>q * |rows| + r\<close> is \<open>(rows ! r, cols ! q)\<close>, so all
  row values paired with the first column value come first, in row order.
\<close>

theorem get_pixels_column_major:
  assumes "valid_axis pixel_i pixel_i_range" and "valid_axis pixel_j pixel_j_range"
    and "list_or_range pixel_i pixel_i_range = Inr rows"
    and "list_or_range pixel_j pixel_j_range = Inr cols"
    and "r < length rows" and "q < length cols"
  shows "\<exists>ps. get_pixels pixel_i pixel_j pixel_i_range pixel_j_range True = Inr ps \<and>
              length ps = length rows * length cols \<and>
              ps ! (q * length rows + r) = (rows ! r, cols ! q)"
  using get_pixels_resolved[OF assms(1-4), of True] nth_column_major[OF assms(5,6)]
  by (simp add: length_column_major)

theorem get_pixels_column_major_witness:
  "\<exists>ps. get_pixels [1, 2, 3] [] None (Some (0, 4, 2)) True = Inr ps \<and>
        length ps = 6 \<and> ps ! 4 = (2, 2)"
proof -
  have h1: "valid_axis [1, 2, 3] None" by (simp add: valid_axis_def)
  have h2: "valid_axis [] (Some (0, 4, 2))" by (simp add: valid_axis_def)
  have r1: "list_or_range [1, 2, 3] None = Inr [1, 2, 3]" by (simp add: list_or_range_def)
  have r2: "list_or_range [] (Some (0, 4, 2)) = Inr [0, 2]"
    by (simp add: list_or_range_def py_range_def range_len_def upt_rec)
  from get_pixels_column_major[OF h1 h2 r1 r2, of 1 1] show ?thesis
    by (simp add: eval_nat_numeral)
qed

section \<open>Properties of crop\<close>

lemma take_drop_window:
  "take (n - m) (drop m xs) = map (\<lambda>k. xs ! k) [m ..< min n (length xs)]"
proof (rule nth_equalityI)
  show "length (take (n - m) (drop m xs)) = length (map (\<lambda>k. xs ! k) [m ..< min n (length xs)])"
    by (cases "n \<le> length xs") auto
next
  fix i assume "i < length (take (n - m) (drop m xs))"
  then have "i < n - m" and "m + i < length xs" by auto
  then show "take (n - m) (drop m xs) ! i = map (\<lambda>k. xs ! k) [m ..< min n (length xs)] ! i"
    by simp
qed

lemma py_slice_window:
  assumes "0 \<le> lo" and "0 \<le> hi"
  shows "py_slice xs lo hi = window xs lo hi"
proof -
  let ?n = "int (length xs)"
  have "py_slice xs lo hi = take (nat (min hi ?n - min lo ?n)) (drop (nat (min lo ?n)) xs)"
    using assms by (simp add: py_slice_def Let_def)
  also have "\<dots> = take (nat (min hi ?n) - nat (min lo ?n)) (drop (nat (min lo ?n)) xs)"
    using assms by (simp add: nat_diff_distrib')
  also have "\<dots> = map (\<lambda>k. xs ! k) [nat (min lo ?n) ..< min (nat (min hi ?n)) (length xs)]"
    by (rule take_drop_window)
  also have "\<dots> = window xs lo hi"
    using assms unfolding window_def
    by (cases "lo \<le> ?n"; cases "hi \<le> ?n") (auto simp: min_def nat_le_iff)
  finally show ?thesis .
qed

text \<open>
  Claim C8. For a crop size \<open>s > 0\<close> and a center pixel \<open>(i, j)\<close> with non-negative
  coordinates, \<open>crop\<close> takes on each axis the half-open window
  \<open>[max (center - s div 2) 0, center + s div 2)\<close>: the result consists of exactly the
  elements at the indices of that window that exist in the array. The low edge is
  clamped at 0, the high edge is not changed by the function; for \<open>i < s div 2\<close> the row
  window is \<open>[0, i + s div 2)\<close>.
\<close>

theorem crop_window:
  assumes "0 < crop_size" and "0 \<le> i" and "0 \<le> j"
  shows "crop_slices i j crop_size =
           ((max (i - crop_size div 2) 0, i + crop_size div 2), (max (j - crop_size div 2) 0, j + crop_size div 2)) \<and>
         crop i j crop_size img =
           map (\<lambda>row. window row (max (j - crop_size div 2) 0) (j + crop_size div 2))
               (window img (max (i - crop_size div 2) 0) (i + crop_size div 2)) \<and>
         (i < crop_size div 2 \<longrightarrow>
            fst (crop_slices i j crop_size) = (0, i + crop_size div 2) \<and>
            length (crop i j crop_size img) = min (nat (i + crop_size div 2)) (length img))"
proof -
  have half: "0 \<le> crop_size div 2" using assms(1) by simp
  have hi: "0 \<le> i + crop_size div 2" "0 \<le> j + crop_size div 2" using assms half by simp_all
  have lo: "0 \<le> max (i - crop_size div 2) 0" "0 \<le> max (j - crop_size div 2) 0" by simp_all
  have c: "crop i j crop_size img =
           map (\<lambda>row. window row (max (j - crop_size div 2) 0) (j + crop_size div 2))
               (window img (max (i - crop_size div 2) 0) (i + crop_size div 2))"
    by (simp add: crop_def crop_slices_def Let_def py_slice_window[OF lo(1) hi(1)]
          py_slice_window[OF lo(2) hi(2)])
  show ?thesis
    using c by (auto simp: crop_slices_def Let_def window_def)
qed

theorem crop_window_witness:
  "crop_slices 1 1 4 = ((0, 3), (0, 3)) \<and>
   crop 1 1 4 [[1, 2, 3, 4, 5 :: int], [6, 7, 8, 9, 10], [11, 12, 13, 14, 15],
               [16, 17, 18, 19, 20], [21, 22, 23, 24, 25]]
     = [[1, 2, 3], [6, 7, 8], [11, 12, 13]] \<and>
   length (crop 1 1 4 [[1, 2, 3, 4, 5 :: int], [6, 7, 8, 9, 10], [11, 12, 13, 14, 15],
               [16, 17, 18, 19, 20], [21, 22, 23, 24, 25]]) = 3"
proof -
  let ?img = "[[1, 2, 3, 4, 5 :: int], [6, 7, 8, 9, 10], [11, 12, 13, 14, 15],
               [16, 17, 18, 19, 20], [21, 22, 23, 24, 25]]"
  have w: "map (\<lambda>row. window row (max (1 - 4 div 2) 0) (1 + 4 div 2))
             (window ?img (max (1 - 4 div 2) 0) (1 + 4 div 2))
           = [[1, 2, 3], [6, 7, 8], [11, 12, 13]]"
    by code_simp
  from crop_window[of 4 1 1 ?img] w show ?thesis by simp
qed

section \<open>Properties of the saliency bounds\<close>

lemma length_generate: "length (generate_and_save_saliency b layers) = length layers"
  by (induction layers arbitrary: b) (simp_all add: Let_def)

lemma generate_append:
  "generate_and_save_saliency b (xs @ ys) =
     generate_and_save_saliency b xs @
     generate_and_save_saliency (last (b # generate_and_save_saliency b xs)) ys"
  by (induction xs arbitrary: b) (simp_all add: Let_def)

lemma calls_loop_concat: "calls_loop b calls = generate_and_save_saliency b (concat calls)"
  by (induction calls arbitrary: b) (simp_all add: Let_def generate_append)

lemma generate_step:
  "k < length layers \<Longrightarrow>
   (b # generate_and_save_saliency b layers) ! Suc k =
     update_bounds ((b # generate_and_save_saliency b layers) ! k) (layers ! k)"
proof (induction layers arbitrary: b k)
  case Nil
  then show ?case by simp
next
  case (Cons obs layers)
  show ?case
  proof (cases k)
    case 0
    then show ?thesis by (simp add: Let_def)
  next
    case (Suc k')
    then have "k' < length layers" using Cons.prems by simp
    from Cons.IH[OF this, of "update_bounds b obs"] show ?thesis
      using Suc by (simp add: Let_def)
  qed
qed

lemma run_map:
  "run b images =
     map (\<lambda>calls. starting_bounds # generate_and_save_saliency starting_bounds (concat calls)) images"
  by (induction images arbitrary: b) (simp_all add: Let_def run_image_def calls_loop_concat)

lemma update_widens:
  "minimum (update_bounds b obs) \<le> minimum b \<and> maximum b \<le> maximum (update_bounds b obs)"
  by (cases obs) (simp add: update_bounds_def)

text \<open>
  Claim C9. For every image index \<open>n\<close> of a run, whatever the bounds were before: the
  log of that image has one entry for the reset and one per update; its first entry is
  the starting pair, minimum 0 and maximum -1000; and each update replaces the pair by
  its update with the observed extrema, so that the minimum never rises and the maximum
  never falls.
\<close>

theorem run_bounds_widen:
  assumes "n < length images"
  shows "length (run b images) = length images \<and>
         length (run b images ! n) = Suc (length (concat (images ! n))) \<and>
         run b images ! n ! 0 = \<lparr>minimum = 0, maximum = - 1000\<rparr> \<and>
         (\<forall>k < length (concat (images ! n)).
            run b images ! n ! Suc k =
              update_bounds (run b images ! n ! k) (concat (images ! n) ! k) \<and>
            minimum (run b images ! n ! Suc k) \<le> minimum (run b images ! n ! k) \<and>
            maximum (run b images ! n ! k) \<le> maximum (run b images ! n ! Suc k))"
proof -
  let ?obs = "concat (images ! n)"
  have log: "run b images ! n =
               starting_bounds # generate_and_save_saliency starting_bounds ?obs"
    using assms by (simp add: run_map)
  have step: "run b images ! n ! Suc k = update_bounds (run b images ! n ! k) (?obs ! k)"
    if "k < length ?obs" for k
    unfolding log by (rule generate_step[OF that])
  have wid: "minimum (run b images ! n ! Suc k) \<le> minimum (run b images ! n ! k) \<and>
        maximum (run b images ! n ! k) \<le> maximum (run b images ! n ! Suc k)"
    if "k < length ?obs" for k
    using step[OF that] update_widens[of "run b images ! n ! k" "?obs ! k"] by simp
  have len: "length (run b images) = length images"
    by (simp add: run_map)
  have len_log: "length (run b images ! n) = Suc (length ?obs)"
    unfolding log by (simp add: length_generate)
  have first: "run b images ! n ! 0 = \<lparr>minimum = 0, maximum = - 1000\<rparr>"
    unfolding log by (simp add: starting_bounds_def)
  from len len_log first step wid show ?thesis by blast
qed

theorem run_bounds_widen_witness:
  "run \<lparr>minimum = - 5, maximum = 7\<rparr> [[[(3, 1), (5, - 2)], [(4, 0)]], [[(- 7, - 9)]]] ! 1 ! 0
     = \<lparr>minimum = 0, maximum = - 1000\<rparr> \<and>
   run \<lparr>minimum = - 5, maximum = 7\<rparr> [[[(3, 1), (5, - 2)], [(4, 0)]], [[(- 7, - 9)]]] ! 1 ! 1
     = \<lparr>minimum = - 9, maximum = - 7\<rparr>"
proof -
  let ?images = "[[[(3, 1), (5, - 2)], [(4, 0)]], [[(- 7, - 9)]]] :: observation list list list"
  have n: "1 < length ?images" by simp
  from run_bounds_widen[OF n, of "\<lparr>minimum = - 5, maximum = 7\<rparr>"]
  show ?thesis by (simp add: update_bounds_def)
qed

section \<open>Properties of generate_fname\<close>

lemma map_of_dict_pop:
  "map_of (dict_pop key kw) k = (if k = key then None else map_of kw k)"
  by (induction kw) (auto simp: dict_pop_def)

lemma key_value_dict_pop: "k \<noteq> key \<Longrightarrow> key_value (dict_pop key kw) k = key_value kw k"
  by (simp add: key_value_def map_of_dict_pop)

lemma dict_pop_filter:
  "filter (\<lambda>item. fst item \<notin> set order) (dict_pop key kw) =
   filter (\<lambda>item. fst item \<notin> set (key # order)) kw"
  by (induction kw) (auto simp: dict_pop_def)

lemma dict_pop_absent: "map_of kw key = None \<Longrightarrow>
   filter (\<lambda>item. fst item \<notin> set (key # order)) kw = filter (\<lambda>item. fst item \<notin> set order) kw"
proof -
  assume "map_of kw key = None"
  then have "key \<notin> fst ` set kw" by (simp add: map_of_eq_None_iff)
  then show ?thesis by (intro filter_cong) auto
qed

lemma order_loop_eq:
  "distinct order \<Longrightarrow>
   order_loop order kw parts =
     (filter (\<lambda>item. fst item \<notin> set order) kw,
      parts @ map (key_value kw) (filter (\<lambda>k. k \<in> fst ` set kw) order))"
proof (induction order arbitrary: kw parts)
  case Nil
  then show ?case by simp
next
  case (Cons key order)
  then have d: "distinct order" and notin: "key \<notin> set order" by simp_all
  show ?case
  proof (cases "map_of kw key")
    case None
    then have "key \<notin> fst ` set kw" by (simp add: map_of_eq_None_iff)
    then show ?thesis
      using None Cons.IH[OF d, of kw parts] dict_pop_absent[OF None, of order] by simp
  next
    case (Some v)
    then have present: "key \<in> fst ` set kw" by (metis map_of_eq_None_iff option.distinct(1))
    have keys: "filter (\<lambda>k. k \<in> fst ` set (dict_pop key kw)) order =
                filter (\<lambda>k. k \<in> fst ` set kw) order"
      using notin by (intro filter_cong) (auto simp: dict_pop_def)
    have vals: "map (key_value (dict_pop key kw)) (filter (\<lambda>k. k \<in> fst ` set kw) order) =
                map (key_value kw) (filter (\<lambda>k. k \<in> fst ` set kw) order)"
    proof (rule map_cong[OF refl])
      fix k assume "k \<in> set (filter (\<lambda>k. k \<in> fst ` set kw) order)"
      then have "k \<noteq> key" using notin by auto
      then show "key_value (dict_pop key kw) k = key_value kw k"
        by (rule key_value_dict_pop)
    qed
    have "order_loop (key # order) kw parts =
            order_loop order (dict_pop key kw) (parts @ [key_value kw key])"
      using Some by (simp add: key_value_def)
    also have "\<dots> = (filter (\<lambda>item. fst item \<notin> set order) (dict_pop key kw),
                      (parts @ [key_value kw key]) @
                      map (key_value (dict_pop key kw))
                        (filter (\<lambda>k. k \<in> fst ` set (dict_pop key kw)) order))"
      by (rule Cons.IH[OF d])
    also have "\<dots> = (filter (\<lambda>item. fst item \<notin> set (key # order)) kw,
                      parts @ map (key_value kw) (filter (\<lambda>k. k \<in> fst ` set kw) (key # order)))"
      using present by (simp only: keys vals dict_pop_filter) simp
    finally show ?thesis .
  qed
qed

lemma sorted_loop_eq:
  "distinct keys \<Longrightarrow> set keys \<subseteq> fst ` set kw \<Longrightarrow>
   sorted_loop keys kw parts = Inr (parts @ map (key_value kw) keys)"
proof (induction keys arbitrary: kw parts)
  case Nil
  then show ?case by simp
next
  case (Cons key keys)
  then obtain v where v: "map_of kw key = Some v"
    by (metis list.set_intros(1) map_of_eq_None_iff not_Some_eq subsetD)
  have d: "distinct keys" and notin: "key \<notin> set keys" using Cons.prems by simp_all
  have sub: "set keys \<subseteq> fst ` set (dict_pop key kw)"
  proof
    fix k assume k: "k \<in> set keys"
    then have "k \<noteq> key" using notin by auto
    moreover from k Cons.prems(2) obtain item where "item \<in> set kw" and "fst item = k"
      by auto
    ultimately have "item \<in> set (dict_pop key kw)" by (simp add: dict_pop_def)
    then show "k \<in> fst ` set (dict_pop key kw)" using \<open>fst item = k\<close> by force
  qed
  have vals: "map (key_value (dict_pop key kw)) keys = map (key_value kw) keys"
  proof (rule map_cong[OF refl])
    fix k assume "k \<in> set keys"
    then have "k \<noteq> key" using notin by auto
    then show "key_value (dict_pop key kw) k = key_value kw k"
      by (rule key_value_dict_pop)
  qed
  have "sorted_loop (key # keys) kw parts =
          sorted_loop keys (dict_pop key kw) (parts @ [key_value kw key])"
    using v by (simp add: key_value_def)
  also have "\<dots> = Inr ((parts @ [key_value kw key]) @ map (key_value (dict_pop key kw)) keys)"
    by (rule Cons.IH[OF d sub])
  also have "\<dots> = Inr (parts @ map (key_value kw) (key # keys))"
    by (simp only: vals) simp
  finally show ?case .
qed


lemma map_of_filter_keys:
  "k \<notin> S \<Longrightarrow> map_of (filter (\<lambda>item. fst item \<notin> S) kw) k = map_of kw k"
  by (induction kw) auto

lemma keys_filter:
  "map fst (filter (\<lambda>item. fst item \<notin> S) kw) = filter (\<lambda>k. k \<notin> S) (map fst kw)"
  by (induction kw) auto

lemma generate_fname_eq:
  assumes "distinct (map fst kw)" and "distinct order"
  shows "generate_fname kw order =
           Inr (join ''-'' (map (key_value kw)
                  (filter (\<lambda>k. k \<in> fst ` set kw) order @
                   sort (filter (\<lambda>k. k \<notin> set order) (map fst kw)))))"
proof -
  let ?rest = "filter (\<lambda>item. fst item \<notin> set order) kw"
  let ?keys = "sort (map fst ?rest)"
  have keys: "?keys = sort (filter (\<lambda>k. k \<notin> set order) (map fst kw))"
    by (simp only: keys_filter)
  have d: "distinct ?keys"
    using assms(1) by (simp add: keys_filter)
  have sub: "set ?keys \<subseteq> fst ` set ?rest"
    by simp
  have vals: "map (key_value ?rest) ?keys = map (key_value kw) ?keys"
  proof (rule map_cong[OF refl])
    fix k assume "k \<in> set ?keys"
    then have "k \<notin> set order" by auto
    then show "key_value ?rest k = key_value kw k"
      by (simp add: key_value_def map_of_filter_keys)
  qed
  let ?parts = "map (key_value kw) (filter (\<lambda>k. k \<in> fst ` set kw) order)"
  have sl: "sorted_loop ?keys ?rest ?parts = Inr (?parts @ map (key_value kw) ?keys)"
    using sorted_loop_eq[OF d sub, of ?parts] by (simp only: vals)
  have "generate_fname kw order = Inr (join ''-'' (?parts @ map (key_value kw) ?keys))"
    unfolding generate_fname_def order_loop_eq[OF assms(2)]
    by (simp only: sl prod.case sum.case append_Nil)
  then show ?thesis by (simp only: keys map_append)
qed

lemma generate_fname_insertion_order:
  assumes "distinct (map fst kw)" and "distinct (map fst kw')" and "set kw' = set kw"
    and "distinct order"
  shows "generate_fname kw' order = generate_fname kw order"
proof -
  have m: "map_of kw' = map_of kw"
    using assms(1-3) by (simp add: map_of_inject_set)
  have "distinct kw" and "distinct kw'"
    using assms(1,2) by (simp_all add: distinct_map)
  then have "mset kw' = mset kw"
    using assms(3) by (simp add: set_eq_iff_mset_eq_distinct)
  then have "mset (filter (\<lambda>k. k \<notin> set order) (map fst kw')) =
             mset (filter (\<lambda>k. k \<notin> set order) (map fst kw))"
    by (metis mset_filter mset_map)
  then have s: "sort (filter (\<lambda>k. k \<notin> set order) (map fst kw')) =
                sort (filter (\<lambda>k. k \<notin> set order) (map fst kw))"
    by (metis sorted_list_of_multiset_mset)
  have kv: "key_value kw' = key_value kw"
    by (rule ext) (simp add: key_value_def m)
  show ?thesis
    unfolding generate_fname_eq[OF assms(1,4)] generate_fname_eq[OF assms(2,4)]
    by (simp only: s kv assms(3))
qed


lemma fname_example:
  "generate_fname [(''pixel_j'', IntV 5), (''image'', IntV 2), (''pixel_i'', IntV 3)] default_order
     = Inr ''image-2-pixel_i-3-pixel_j-5''"
  by code_simp

text \<open>
  Claim C7. For a dictionary (items with distinct keys), \<open>generate_fname\<close> with the default
  order renders first the keys \<open>image\<close>, \<open>pixel_i\<close>, \<open>pixel_j\<close> that are present, in that
  order, then the remaining keys in ascending order, each as \<open>key-value\<close>, joined by
  \<open>-\<close>. Two dictionaries with the same items in different insertion orders give the same
  name, and the items \<open>pixel_j: 5, image: 2, pixel_i: 3\<close> give
  \<open>image-2-pixel_i-3-pixel_j-5\<close>.
\<close>

theorem generate_fname_order_stable:
  assumes "distinct (map fst kw)" and "distinct (map fst kw')" and "set kw' = set kw"
  shows "generate_fname kw default_order =
           Inr (join ''-'' (map (key_value kw)
                  (filter (\<lambda>k. k \<in> fst ` set kw) [''image'', ''pixel_i'', ''pixel_j''] @
                   sort (filter (\<lambda>k. k \<notin> {''image'', ''pixel_i'', ''pixel_j''}) (map fst kw))))) \<and>
         generate_fname kw' default_order = generate_fname kw default_order \<and>
         generate_fname [(''pixel_j'', IntV 5), (''image'', IntV 2), (''pixel_i'', IntV 3)]
             default_order
           = Inr ''image-2-pixel_i-3-pixel_j-5''"
proof -
  have d: "distinct default_order" by (simp add: default_order_def)
  have "generate_fname kw default_order =
           Inr (join ''-'' (map (key_value kw)
                  (filter (\<lambda>k. k \<in> fst ` set kw) [''image'', ''pixel_i'', ''pixel_j''] @
                   sort (filter (\<lambda>k. k \<notin> {''image'', ''pixel_i'', ''pixel_j''}) (map fst kw)))))"
    using generate_fname_eq[OF assms(1) d] by (simp add: default_order_def)
  moreover have "generate_fname kw' default_order = generate_fname kw default_order"
    by (rule generate_fname_insertion_order[OF assms d])
  ultimately show ?thesis using fname_example by blast
qed

theorem generate_fname_order_stable_witness:
  "generate_fname [(''image'', IntV 2), (''suffix'', StrV ''a''), (''pixel_i'', IntV 3)] default_order
     = Inr ''image-2-pixel_i-3-suffix-a'' \<and>
   generate_fname [(''suffix'', StrV ''a''), (''pixel_i'', IntV 3), (''image'', IntV 2)] default_order
     = Inr ''image-2-pixel_i-3-suffix-a''"
proof -
  let ?kw = "[(''image'', IntV 2), (''suffix'', StrV ''a''), (''pixel_i'', IntV 3)]"
  let ?kw' = "[(''suffix'', StrV ''a''), (''pixel_i'', IntV 3), (''image'', IntV 2)]"
  have h1: "distinct (map fst ?kw)" by simp
  have h2: "distinct (map fst ?kw')" by simp
  have h3: "set ?kw' = set ?kw" by auto
  have v: "generate_fname ?kw default_order = Inr ''image-2-pixel_i-3-suffix-a''"
    by code_simp
  from generate_fname_order_stable[OF h1 h2 h3] v show ?thesis by simp
qed

section \<open>Properties of compute_overlap\<close>

lemma pixels_of_class_Nil: "pixels_of_class [] cls = {}"
  by (simp add: pixels_of_class_def)

lemma pixels_of_class_Cons:
  "pixels_of_class (row # label) cls =
     Pair 0 ` {c. c < length row \<and> row ! c = cls} \<union>
     (\<lambda>p. (Suc (fst p), snd p)) ` pixels_of_class label cls"
proof (rule set_eqI)
  fix p :: "nat \<times> nat"
  obtain r c where p: "p = (r, c)" by (cases p)
  show "p \<in> pixels_of_class (row # label) cls \<longleftrightarrow>
        p \<in> Pair 0 ` {c. c < length row \<and> row ! c = cls} \<union>
            (\<lambda>p. (Suc (fst p), snd p)) ` pixels_of_class label cls"
  proof (cases r)
    case 0
    then show ?thesis using p by (auto simp: pixels_of_class_def)
  next
    case (Suc r')
    then show ?thesis using p by (auto simp: pixels_of_class_def image_iff)
  qed
qed

lemma finite_pixels_of_class: "finite (pixels_of_class label cls)"
  by (induction label) (simp_all add: pixels_of_class_Nil pixels_of_class_Cons)

lemma row_masked_sum:
  assumes "length grow = length row"
  shows "sum_list (map snd (filter (\<lambda>p. fst p = cls) (zip row grow))) =
           (\<Sum>c \<in> {c. c < length row \<and> row ! c = cls}. grow ! c)"
proof -
  let ?zs = "zip row grow"
  have len: "length ?zs = length row" using assms by simp
  have "sum_list (map snd (filter (\<lambda>p. fst p = cls) ?zs)) =
          sum_list (map (\<lambda>p. if fst p = cls then snd p else 0) ?zs)"
    by (rule sum_list_map_filter')
  also have "\<dots> = (\<Sum>i = 0..<length ?zs. if fst (?zs ! i) = cls then snd (?zs ! i) else 0)"
    by (simp add: sum_list_sum_nth)
  also have "\<dots> = (\<Sum>i \<in> {0..<length row}. if row ! i = cls then grow ! i else 0)"
    using assms by (intro sum.cong) auto
  also have "\<dots> = (\<Sum>i \<in> {i \<in> {0..<length row}. row ! i = cls}. grow ! i)"
    by (rule sum.inter_filter[symmetric]) simp
  also have "{i \<in> {0..<length row}. row ! i = cls} = {c. c < length row \<and> row ! c = cls}"
    by auto
  finally show ?thesis .
qed

lemma masked_values_Cons:
  "length grow = length row \<Longrightarrow>
   masked_values (row # label) (grow # g) cls =
     map snd (filter (\<lambda>p. fst p = cls) (zip row grow)) @ masked_values label g cls"
  by (simp add: masked_values_def)

lemma masked_sum:
  "map length g = map length label \<Longrightarrow>
   sum_list (masked_values label g cls) = (\<Sum>p \<in> pixels_of_class label cls. g ! fst p ! snd p)"
proof (induction label arbitrary: g)
  case Nil
  then show ?case by (simp add: masked_values_def pixels_of_class_Nil)
next
  case (Cons row label)
  then obtain grow g' where g: "g = grow # g'" and len: "length grow = length row"
    and rest: "map length g' = map length label"
    by (cases g) auto
  let ?A = "Pair 0 ` {c. c < length row \<and> row ! c = cls}"
  let ?B = "(\<lambda>p. (Suc (fst p), snd p)) ` pixels_of_class label cls"
  have disj: "?A \<inter> ?B = {}" by auto
  have fin: "finite ?A" "finite ?B" by (simp_all add: finite_pixels_of_class)
  have a: "(\<Sum>p \<in> ?A. g ! fst p ! snd p) = (\<Sum>c \<in> {c. c < length row \<and> row ! c = cls}. grow ! c)"
    by (subst sum.reindex) (auto simp: inj_on_def g)
  have b: "(\<Sum>p \<in> ?B. g ! fst p ! snd p) = (\<Sum>p \<in> pixels_of_class label cls. g' ! fst p ! snd p)"
    by (subst sum.reindex) (auto simp: inj_on_def g prod_eq_iff)
  have "sum_list (masked_values (row # label) g cls) =
          (\<Sum>c \<in> {c. c < length row \<and> row ! c = cls}. grow ! c) +
          (\<Sum>p \<in> pixels_of_class label cls. g' ! fst p ! snd p)"
    by (simp add: g masked_values_Cons[OF len] row_masked_sum[OF len] Cons.IH[OF rest])
  also have "\<dots> = (\<Sum>p \<in> ?A \<union> ?B. g ! fst p ! snd p)"
    by (simp only: sum.union_disjoint[OF fin disj] a b)
  finally show ?case by (simp only: pixels_of_class_Cons)
qed

lemma selector_sum_card: "selector_sum label cls = card (pixels_of_class label cls)"
proof (induction label)
  case Nil
  then show ?case by (simp add: selector_sum_def pixels_of_class_Nil)
next
  case (Cons row label)
  let ?A = "Pair 0 ` {c. c < length row \<and> row ! c = cls}"
  let ?B = "(\<lambda>p. (Suc (fst p), snd p)) ` pixels_of_class label cls"
  have disj: "?A \<inter> ?B = {}" by auto
  have fin: "finite ?A" "finite ?B" by (simp_all add: finite_pixels_of_class)
  have a: "card ?A = length (filter (\<lambda>l. l = cls) row)"
    by (subst card_image) (auto simp: inj_on_def length_filter_conv_card)
  have b: "card ?B = card (pixels_of_class label cls)"
    by (rule card_image) (auto simp: inj_on_def prod_eq_iff)
  have "selector_sum (row # label) cls =
          length (filter (\<lambda>l. l = cls) row) + selector_sum label cls"
    by (simp add: selector_sum_def)
  also have "\<dots> = card (?A \<union> ?B)"
    by (simp only: card_Un_disjoint[OF fin disj] a b Cons.IH)
  finally show ?case by (simp only: pixels_of_class_Cons)
qed


lemma set_np_unique: "set (np_unique xs) = set xs"
  by (simp add: np_unique_def)

lemma distinct_np_unique: "distinct (np_unique xs)"
  by (simp add: np_unique_def)

lemma map_of_tabulate:
  "map_of (map (\<lambda>k. (k, f k)) ks) k = (if k \<in> set ks then Some (f k) else None)"
  by (induction ks) auto

lemma map_of_remove_key:
  "map_of (filter (\<lambda>item. fst item \<noteq> a) xs) k = (if k = a then None else map_of xs k)"
  by (induction xs) auto

lemma keys_remove_key:
  "fst ` set (filter (\<lambda>item. fst item \<noteq> a) xs) = fst ` set xs - {a}"
  by (induction xs) auto

lemma compute_overlap_same_shape:
  assumes "map length (gradcam_normalize gradcam) = map length label"
  shows "compute_overlap gradcam_normalize label gradcam =
           (if 255 \<in> set (concat label)
            then Inr (filter (\<lambda>item. fst item \<noteq> 255)
                   (map (\<lambda>cls. (cls,
                      (\<Sum>p \<in> pixels_of_class label cls. gradcam_normalize gradcam ! fst p ! snd p) /
                      real (card (pixels_of_class label cls))))
                    (np_unique (concat label))))
            else Inl KeyError)"
proof -
  have img: "fst ` set (map (\<lambda>cls. (cls, f cls)) (np_unique (concat label))) = set (concat label)"
    for f :: "int \<Rightarrow> real"
    by (simp add: image_image set_np_unique)
  show ?thesis
    unfolding compute_overlap_def Let_def
    by (simp only: assms img masked_sum[OF assms] selector_sum_card) simp
qed

text \<open>
  Claim C3. For a label map that contains the ignore id 255 and a normalized saliency
  map of the same shape, \<open>compute_overlap\<close> returns a mapping whose keys are exactly the
  class ids of the label map other than 255, each once, and whose value at a class id is
  the sum of the normalized saliency over the pixels of that class divided by their
  number, which is positive.
\<close>

theorem compute_overlap_means:
  assumes "map length (gradcam_normalize gradcam) = map length label"
    and "255 \<in> set (concat label)"
  shows "\<exists>m. compute_overlap gradcam_normalize label gradcam = Inr m \<and>
             distinct (map fst m) \<and>
             fst ` set m = set (concat label) - {255} \<and>
             (\<forall>cls \<in> set (concat label) - {255}.
                0 < card (pixels_of_class label cls) \<and>
                map_of m cls =
                  Some ((\<Sum>p \<in> pixels_of_class label cls. gradcam_normalize gradcam ! fst p ! snd p) /
                        real (card (pixels_of_class label cls))))"
proof -
  let ?mean = "\<lambda>cls. (\<Sum>p \<in> pixels_of_class label cls. gradcam_normalize gradcam ! fst p ! snd p) /
                     real (card (pixels_of_class label cls))"
  let ?all = "map (\<lambda>cls. (cls, ?mean cls)) (np_unique (concat label))"
  let ?m = "filter (\<lambda>item. fst item \<noteq> 255) ?all"
  have res: "compute_overlap gradcam_normalize label gradcam = Inr ?m"
    using compute_overlap_same_shape[of gradcam_normalize gradcam label, OF assms(1)] assms(2) by simp
  have keys_all: "map fst ?all = np_unique (concat label)"
    by (simp add: comp_def)
  have "distinct (map fst ?all)"
    by (simp only: keys_all distinct_np_unique)
  then have d: "distinct (map fst ?m)"
    by (rule distinct_map_filter)
  have "fst ` set ?all = set (concat label)"
    by (simp add: image_image set_np_unique)
  then have keys: "fst ` set ?m = set (concat label) - {255}"
    by (simp only: keys_remove_key)
  have vals: "0 < card (pixels_of_class label cls) \<and> map_of ?m cls = Some (?mean cls)"
    if "cls \<in> set (concat label) - {255}" for cls
  proof -
    from that have "cls \<in> set (concat label)" and "cls \<noteq> 255" by simp_all
    then have "filter (\<lambda>l. l = cls) (concat label) \<noteq> []"
      by (simp add: filter_empty_conv)
    then have pos: "0 < card (pixels_of_class label cls)"
      by (simp add: selector_sum_card[symmetric] selector_sum_def)
    have "map_of ?m cls = Some (?mean cls)"
      using \<open>cls \<in> set (concat label)\<close> \<open>cls \<noteq> 255\<close>
      by (simp only: map_of_remove_key map_of_tabulate set_np_unique) simp
    with pos show ?thesis by simp
  qed
  from res d keys vals show ?thesis by blast
qed

theorem compute_overlap_means_witness:
  "map length (id [[1 / 2, 1], [1 / 4, 0 :: real]]) = map length [[0, 255], [1, 0 :: int]] \<and>
   255 \<in> set (concat [[0, 255], [1, 0 :: int]]) \<and>
   compute_overlap id [[0, 255], [1, 0]] [[1 / 2, 1], [1 / 4, 0]] = Inr [(0, 1 / 4), (1, 1 / 4)] \<and>
   (\<exists>m. compute_overlap id [[0, 255], [1, 0]] [[1 / 2, 1], [1 / 4, 0 :: real]] = Inr m \<and>
        fst ` set m = set (concat [[0, 255], [1, 0]]) - {255})"
proof -
  let ?L = "[[0, 255], [1, 0 :: int]]"
  let ?G = "[[1 / 2, 1], [1 / 4, 0 :: real]]"
  have h1: "map length (id ?G) = map length ?L" by simp
  have h2: "255 \<in> set (concat ?L)" by simp
  have v: "compute_overlap id ?L ?G = Inr [(0, 1 / 4), (1, 1 / 4)]"
    by (simp add: compute_overlap_def np_unique_def masked_values_def selector_sum_def)
  from compute_overlap_means[of id ?G ?L, OF h1 h2] h1 h2 v show ?thesis by blast
qed

text \<open>
  Claim C4. For a label map in which 255 does not occur, \<open>compute_overlap\<close> returns no
  mapping; when the saliency map has the shape of the label map, the error is the
  KeyError of the removal step.
\<close>

theorem compute_overlap_no_ignore:
  assumes "255 \<notin> set (concat label)"
  shows "(\<exists>e. compute_overlap gradcam_normalize label gradcam = Inl e) \<and>
         (map length (gradcam_normalize gradcam) = map length label \<longrightarrow>
            compute_overlap gradcam_normalize label gradcam = Inl KeyError)"
proof -
  have "fst ` set (map (\<lambda>cls. (cls, f cls)) (np_unique (concat label))) = set (concat label)"
    for f :: "int \<Rightarrow> real"
    by (simp add: image_image set_np_unique)
  then have "\<exists>e. compute_overlap gradcam_normalize label gradcam = Inl e"
    using assms unfolding compute_overlap_def Let_def by simp
  moreover have "compute_overlap gradcam_normalize label gradcam = Inl KeyError"
    if "map length (gradcam_normalize gradcam) = map length label"
    using compute_overlap_same_shape[of gradcam_normalize gradcam label, OF that] assms by simp
  ultimately show ?thesis by blast
qed

theorem compute_overlap_no_ignore_witness:
  "compute_overlap id [[0, 3], [1, 0]] [[1 / 2, 1], [1 / 4, 0 :: real]] = Inl KeyError"
proof -
  have h: "255 \<notin> set (concat [[0, 3], [1, 0 :: int]])" by simp
  from compute_overlap_no_ignore[of "[[0, 3], [1, 0]]" id "[[1 / 2, 1], [1 / 4, 0 :: real]]", OF h]
  show ?thesis by simp
qed

section \<open>Properties of get_random_pixels\<close>

lemma front_sampler_contract: "sample_contract front_sampler"
  by (simp add: sample_contract_def front_sampler_def)

lemma bin_append_keys: "fst ` set (bin_append bin p d) = insert bin (fst ` set d)"
  by (induction bin p d rule: bin_append.induct) (auto split: if_splits)

lemma bin_append_distinct: "distinct (map fst d) \<Longrightarrow> distinct (map fst (bin_append bin p d))"
proof (induction d)
  case Nil
  then show ?case by simp
next
  case (Cons item d)
  obtain bin' ps where item: "item = (bin', ps)" by (cases item)
  show ?case
  proof (cases "bin' = bin")
    case True
    then show ?thesis using Cons.prems item by simp
  next
    case False
    have "bin' \<notin> fst ` set (bin_append bin p d)"
      using Cons.prems False item by (simp add: bin_append_keys)
    then show ?thesis using Cons item False by simp
  qed
qed

lemma bin_append_pixels:
  "(\<Union>item \<in> set (bin_append bin p d). set (snd item)) = insert p (\<Union>item \<in> set d. set (snd item))"
  by (induction bin p d rule: bin_append.induct) (auto split: if_splits)

lemma bin_append_entry:
  assumes "(bin', ps') \<in> set (bin_append bin p d)"
  shows "(bin', ps') \<in> set d \<or> (bin' = bin \<and> ps' \<noteq> [] \<and> set ps' \<subseteq> insert p (\<Union>item \<in> {i \<in> set d. fst i = bin}. set (snd item)))"
  using assms by (induction bin p d rule: bin_append.induct) (auto split: if_splits)

lemma bins_ok_append:
  assumes "bins_ok bin_size d"
  shows "bins_ok bin_size (bin_append (bin_of bin_size p) p d)"
proof -
  have "snd item \<noteq> [] \<and> (\<forall>q \<in> set (snd item). bin_of bin_size q = fst item)"
    if "item \<in> set (bin_append (bin_of bin_size p) p d)" for item
  proof -
    obtain bin' ps' where item: "item = (bin', ps')" by (cases item)
    from bin_append_entry[of bin' ps' "bin_of bin_size p" p d] that item
    consider "(bin', ps') \<in> set d"
      | "bin' = bin_of bin_size p" "ps' \<noteq> []"
        "set ps' \<subseteq> insert p (\<Union>item \<in> {i \<in> set d. fst i = bin_of bin_size p}. set (snd item))"
      by blast
    then show ?thesis
    proof cases
      case 1
      then show ?thesis using assms item by (auto simp: bins_ok_def)
    next
      case 2
      have "bin_of bin_size q = bin_of bin_size p" if "q \<in> set ps'" for q
        using that 2(3) assms by (auto simp: bins_ok_def)
      then show ?thesis using 2 item by simp
    qed
  qed
  then show ?thesis
    using assms bin_append_distinct[of d] by (simp add: bins_ok_def)
qed

lemma fill_bins_ok: "bins_ok bin_size d \<Longrightarrow> bins_ok bin_size (fill_bins bin_size pixels d)"
  by (induction pixels arbitrary: d) (simp_all add: bins_ok_append)

lemma fill_bins_keys:
  "fst ` set (fill_bins bin_size pixels d) = fst ` set d \<union> bin_of bin_size ` set pixels"
  by (induction pixels arbitrary: d) (auto simp: bin_append_keys)

lemma fill_bins_pixels:
  "(\<Union>item \<in> set (fill_bins bin_size pixels d). set (snd item)) =
     (\<Union>item \<in> set d. set (snd item)) \<union> set pixels"
  by (induction pixels arbitrary: d) (simp_all add: bin_append_pixels)


lemma bins_ok_Nil: "bins_ok bin_size []"
  by (simp add: bins_ok_def)

lemma bin_lookup_item:
  assumes "distinct (map fst d)" and "item \<in> set d"
  shows "bin_lookup d (fst item) = snd item"
proof -
  have "map_of d (fst item) = Some (snd item)"
    using assms by (intro map_of_is_SomeI) simp_all
  then show ?thesis by (simp add: bin_lookup_def)
qed

lemma bin_lookup_all: "distinct (map fst d) \<Longrightarrow> map (bin_lookup d) (map fst d) = map snd d"
  by (simp add: bin_lookup_item)

lemma random_sample_one:
  assumes "sample_contract sampler" and "ps \<noteq> []"
  shows "\<exists>i g'. random_sample sampler g [0..<length ps] 1 = (Inr [i], g') \<and> i < length ps"
proof -
  obtain positions g' where c: "sampler g (length ps) 1 = (positions, g')"
    by (cases "sampler g (length ps) 1")
  have one: "1 \<le> length ps" using assms(2) by (cases ps) simp_all
  from assms(1) one have "length positions = 1 \<and> (\<forall>p \<in> set positions. p < length ps)"
    unfolding sample_contract_def using c by (metis fst_conv)
  then obtain i where i: "positions = [i]" and lt: "i < length ps"
    by (cases positions) auto
  have "random_sample sampler g [0..<length ps] 1 = (Inr [i], g')"
    using assms(2) one c i lt by (simp add: random_sample_def)
  then show ?thesis using lt by blast
qed

lemma pick_loop_picks:
  assumes "sample_contract sampler"
  shows "\<forall>ps \<in> set pss. ps \<noteq> [] \<Longrightarrow>
         \<exists>out g'. pick_loop sampler g pss acc = (Inr (acc @ out), g') \<and>
                   list_all2 (\<lambda>p ps. p \<in> set ps) out pss"
proof (induction pss arbitrary: g acc)
  case Nil
  then show ?case by simp
next
  case (Cons ps pss)
  then have ne: "ps \<noteq> []" and rest: "\<forall>ps \<in> set pss. ps \<noteq> []" by simp_all
  from random_sample_one[OF assms ne, of g] obtain i g1
    where s: "random_sample sampler g [0..<length ps] 1 = (Inr [i], g1)" and lt: "i < length ps"
    by blast
  from Cons.IH[OF rest, of g1 "acc @ [ps ! i]"] obtain out g'
    where p: "pick_loop sampler g1 pss (acc @ [ps ! i]) = (Inr ((acc @ [ps ! i]) @ out), g')"
      and all: "list_all2 (\<lambda>p ps. p \<in> set ps) out pss"
    by blast
  have "pick_loop sampler g (ps # pss) acc = (Inr (acc @ (ps ! i) # out), g')"
    using s p by simp
  moreover have "list_all2 (\<lambda>p ps. p \<in> set ps) ((ps ! i) # out) (ps # pss)"
    using all lt by simp
  ultimately show ?case by blast
qed

lemma random_sample_distinct:
  assumes "sample_contract sampler" and "0 \<le> n" and "n \<le> int (length keys)"
    and "distinct keys"
  shows "\<exists>bins g'. random_sample sampler g keys n = (Inr bins, g') \<and>
                    length bins = nat n \<and> distinct bins \<and> set bins \<subseteq> set keys"
proof -
  obtain positions g' where c: "sampler g (length keys) (nat n) = (positions, g')"
    by (cases "sampler g (length keys) (nat n)")
  have le: "nat n \<le> length keys" using assms(2,3) by simp
  from assms(1) le have pos: "length positions = nat n" "distinct positions"
      "\<forall>p \<in> set positions. p < length keys"
    unfolding sample_contract_def using c by (metis fst_conv)+
  let ?bins = "map (\<lambda>p. keys ! p) positions"
  have r: "random_sample sampler g keys n = (Inr ?bins, g')"
    using assms(2,3) c by (simp add: random_sample_def)
  have "inj_on (\<lambda>p. keys ! p) (set positions)"
    using assms(4) pos(3) by (intro inj_on_nth) simp_all
  then have d: "distinct ?bins"
    using pos(2) by (simp add: distinct_map)
  have sub: "set ?bins \<subseteq> set keys"
    using pos(3) by auto
  from r d sub pos(1) show ?thesis by simp
qed

lemma picked_in_bins:
  assumes ok: "bins_ok bin_size d" and sub: "set bins \<subseteq> fst ` set d"
    and all: "list_all2 (\<lambda>p ps. p \<in> set ps) out (map (bin_lookup d) bins)"
  shows "map (bin_of bin_size) out = bins \<and> set out \<subseteq> (\<Union>item \<in> set d. set (snd item))"
proof -
  have len: "length out = length bins"
    using all by (simp add: list_all2_lengthD)
  have each: "bin_of bin_size (out ! k) = bins ! k \<and> out ! k \<in> (\<Union>item \<in> set d. set (snd item))"
    if "k < length bins" for k
  proof -
    have "bins ! k \<in> fst ` set d" using sub that by auto
    then obtain item where item: "item \<in> set d" and key: "fst item = bins ! k" by auto
    have "bin_lookup d (bins ! k) = snd item"
      using bin_lookup_item[OF _ item] ok key by (simp add: bins_ok_def)
    moreover have "out ! k \<in> set (bin_lookup d (bins ! k))"
      using list_all2_nthD2[OF all, of k] that by simp
    ultimately have mem: "out ! k \<in> set (snd item)" by simp
    then have "bin_of bin_size (out ! k) = fst item"
      using ok item by (simp add: bins_ok_def)
    then show ?thesis using key mem item by auto
  qed
  have "map (bin_of bin_size) out = bins"
    using len each by (intro nth_equalityI) simp_all
  moreover have "set out \<subseteq> (\<Union>item \<in> set d. set (snd item))"
  proof
    fix p assume "p \<in> set out"
    then obtain k where "k < length out" and "out ! k = p" by (auto simp: in_set_conv_nth)
    then show "p \<in> (\<Union>item \<in> set d. set (snd item))" using each[of k] len by simp
  qed
  ultimately show ?thesis by simp
qed


lemma get_random_pixels_state_free:
  "get_random_pixels seed_state sampler n pixels bin_size seed g =
   get_random_pixels seed_state sampler n pixels bin_size seed g0"
  by (simp add: get_random_pixels_def)

lemma bin_lookup_nonempty:
  assumes "bins_ok bin_size d" and "set bins \<subseteq> fst ` set d"
  shows "\<forall>ps \<in> set (map (bin_lookup d) bins). ps \<noteq> []"
proof
  fix ps assume "ps \<in> set (map (bin_lookup d) bins)"
  then obtain bin where "bin \<in> set bins" and ps: "ps = bin_lookup d bin" by auto
  then obtain item where item: "item \<in> set d" and "fst item = bin" using assms(2) by auto
  then have "ps = snd item"
    using bin_lookup_item[OF _ item] assms(1) ps by (simp add: bins_ok_def)
  then show "ps \<noteq> []" using assms(1) item by (simp add: bins_ok_def)
qed

text \<open>
  Claim C2 as stated, for every \<open>n\<close>: the output has \<open>min n (number of bins)\<close> pixels. For a
  negative \<open>n\<close> the test \<open>n >= len(bin_to_pixels)\<close> fails and \<open>random.sample\<close> is asked for
  a negative sample size, which raises ValueError: no pixel list is returned.
\<close>

theorem get_random_pixels_negative_counterexample:
  "sample_contract front_sampler \<and>
   get_random_pixels nat front_sampler (- 1) [(0, 0)] 300 0 (0 :: nat)
     = (Inl ValueError, 0)"
  by (simp add: front_sampler_contract get_random_pixels_def random_sample_def)

text \<open>
  Claim C2, amended to \<open>n \<ge> 0\<close>. For a sampler that satisfies the contract of
  \<open>random.sample\<close>, a positive bin size, any candidate list and any seed:
  \<open>get_random_pixels\<close> returns the same pixel list and leaves the same generator state
  whatever the state of the generator was before the call; the list has
  \<open>min n (number of distinct bins of the candidates)\<close> pixels, all of them candidates,
  no two in the same bin.
\<close>

theorem get_random_pixels_bins:
  assumes "sample_contract sampler" and "0 < bin_size" and "0 \<le> n"
  shows "\<exists>out g'.
           (\<forall>g. get_random_pixels seed_state sampler n pixels bin_size seed g = (Inr out, g')) \<and>
           length out = min (nat n) (card (bin_of bin_size ` set pixels)) \<and>
           set out \<subseteq> set pixels \<and>
           distinct (map (bin_of bin_size) out)"
proof -
  let ?d = "fill_bins bin_size pixels []"
  let ?g0 = "seed_state seed"
  have ok: "bins_ok bin_size ?d"
    by (rule fill_bins_ok[OF bins_ok_Nil])
  then have dk: "distinct (map fst ?d)" by (simp add: bins_ok_def)
  have keys: "fst ` set ?d = bin_of bin_size ` set pixels"
    by (simp add: fill_bins_keys)
  have pix: "(\<Union>item \<in> set ?d. set (snd item)) = set pixels"
    by (simp add: fill_bins_pixels)
  have "card (set (map fst ?d)) = length (map fst ?d)"
    using dk by (rule distinct_card)
  then have len: "length ?d = card (bin_of bin_size ` set pixels)"
    using keys by simp
  have "\<exists>out g'. get_random_pixels seed_state sampler n pixels bin_size seed g0 = (Inr out, g') \<and>
           length out = min (nat n) (card (bin_of bin_size ` set pixels)) \<and>
           set out \<subseteq> set pixels \<and> distinct (map (bin_of bin_size) out)" for g0
  proof (cases "int (length ?d) \<le> n")
    case True
    have sub: "set (map fst ?d) \<subseteq> fst ` set ?d" by simp
    have ne: "\<forall>ps \<in> set (map (bin_lookup ?d) (map fst ?d)). ps \<noteq> []"
      by (rule bin_lookup_nonempty[OF ok sub])
    from pick_loop_picks[OF assms(1) ne, of ?g0 "[]"] obtain out g'
      where p: "pick_loop sampler ?g0 (map (bin_lookup ?d) (map fst ?d)) [] = (Inr out, g')"
        and all: "list_all2 (\<lambda>p ps. p \<in> set ps) out (map (bin_lookup ?d) (map fst ?d))"
      by auto
    from picked_in_bins[OF ok sub all] have bins: "map (bin_of bin_size) out = map fst ?d"
      and mem: "set out \<subseteq> set pixels"
      using pix by simp_all
    have "length out = length ?d"
      using bins by (metis length_map)
    then have l: "length out = min (nat n) (card (bin_of bin_size ` set pixels))"
      using True len by simp
    have p': "pick_loop sampler ?g0 (map snd ?d) [] = (Inr out, g')"
      using p by (simp only: bin_lookup_all[OF dk])
    have r: "get_random_pixels seed_state sampler n pixels bin_size seed g0 = (Inr out, g')"
      using True assms(2) p' by (simp add: get_random_pixels_def)
    from r l mem bins dk show ?thesis by simp
  next
    case False
    then have le: "n \<le> int (length (map fst ?d))" by simp
    from random_sample_distinct[OF assms(1,3) le dk, of ?g0] obtain bins g1
      where s: "random_sample sampler ?g0 (map fst ?d) n = (Inr bins, g1)"
        and lb: "length bins = nat n" and db: "distinct bins"
        and sub': "set bins \<subseteq> set (map fst ?d)"
      by blast
    have sub: "set bins \<subseteq> fst ` set ?d" using sub' by simp
    have ne: "\<forall>ps \<in> set (map (bin_lookup ?d) bins). ps \<noteq> []"
      by (rule bin_lookup_nonempty[OF ok sub])
    from pick_loop_picks[OF assms(1) ne, of g1 "[]"] obtain out g'
      where p: "pick_loop sampler g1 (map (bin_lookup ?d) bins) [] = (Inr out, g')"
        and all: "list_all2 (\<lambda>p ps. p \<in> set ps) out (map (bin_lookup ?d) bins)"
      by auto
    from picked_in_bins[OF ok sub all] have bins: "map (bin_of bin_size) out = bins"
      and mem: "set out \<subseteq> set pixels"
      using pix by simp_all
    have "length out = length bins"
      using bins by (metis length_map)
    then have l: "length out = min (nat n) (card (bin_of bin_size ` set pixels))"
      using False lb len by simp
    have r: "get_random_pixels seed_state sampler n pixels bin_size seed g0 = (Inr out, g')"
      using False assms(2) s p by (simp add: get_random_pixels_def)
    from r l mem bins db show ?thesis by simp
  qed
  then obtain out g' where
    r: "get_random_pixels seed_state sampler n pixels bin_size seed undefined = (Inr out, g')"
    and rest: "length out = min (nat n) (card (bin_of bin_size ` set pixels))"
      "set out \<subseteq> set pixels" "distinct (map (bin_of bin_size) out)"
    by blast
  have "\<forall>g. get_random_pixels seed_state sampler n pixels bin_size seed g = (Inr out, g')"
    using r get_random_pixels_state_free[of seed_state sampler n pixels bin_size seed _ undefined]
    by simp
  with rest show ?thesis by blast
qed



theorem get_random_pixels_bins_witness:
  "get_random_pixels nat front_sampler 2
       [(0, 0), (10, 10), (400, 0), (301, 5), (0, 700), (5, 5)] 300 1 (7 :: nat)
     = (Inr [(0, 0), (400, 0)], 4) \<and>
   (\<exists>out g'.
      (\<forall>g. get_random_pixels nat front_sampler 2
              [(0, 0), (10, 10), (400, 0), (301, 5), (0, 700), (5, 5)] 300 1 (g :: nat)
            = (Inr out, g')) \<and>
      length out = min (nat 2) (card (bin_of 300 `
         set [(0, 0), (10, 10), (400, 0), (301, 5), (0, 700), (5, 5)])) \<and>
      set out \<subseteq> set [(0, 0), (10, 10), (400, 0), (301, 5), (0, 700), (5, 5)] \<and>
      distinct (map (bin_of 300) out))"
proof -
  have v: "get_random_pixels nat front_sampler 2
       [(0, 0), (10, 10), (400, 0), (301, 5), (0, 700), (5, 5)] 300 1 (7 :: nat)
     = (Inr [(0, 0), (400, 0)], 4)"
    by code_simp
  have h2: "(0 :: int) < 300" by simp
  have h3: "(0 :: int) \<le> 2" by simp
  from get_random_pixels_bins[OF front_sampler_contract h2 h3, of nat
      "[(0, 0), (10, 10), (400, 0), (301, 5), (0, 700), (5, 5)]" 1] v
  show ?thesis by blast
qed

section \<open>Properties of compute_output_coord\<close>

text \<open>The doubles nearest to 1 / 10 and to 1 / 3.\<close>

lemma fl_tenth: "fl (1 / 10) = 3602879701896397 / 36028797018963968"
  by code_simp

lemma fl_third: "fl (1 / 3) = 6004799503160661 / 18014398509481984"
  by code_simp

lemma fl_ratio_49: "fl (2 / 98) = 5882252574524729 / 288230376151711744"
  by code_simp

lemma fl_ratio_49_below: "fl (2 / 98) < 1 / 49"
  by (simp only: fl_ratio_49)

text \<open>
  Claim C6 says that \<open>compute_output_coord\<close> returns
  \<open>(floor (i * H_out / H_in), floor (j * W_out / W_in))\<close>. For an image of 98 by 98, an
  output of 2 by 2 and the pixel (49, 49), the exact value is (1, 1): the ratio 2 / 98
  rounds to a double below 1 / 49, the product with 49 rounds to the double just below
  1, and the function returns (0, 0). On the example of the claim, where the ratio 1 / 8
  is a double, it returns (64, 128).
\<close>

theorem compute_output_coord_rounds_down:
  "compute_output_coord 49 49 (98, 98) (2, 2) = Inr (0, 0) \<and>
   (\<lfloor>49 * 2 / (98 :: rat)\<rfloor>, \<lfloor>49 * 2 / (98 :: rat)\<rfloor>) = (1, 1) \<and>
   compute_output_coord 512 1024 (1024, 2048) (128, 256) = Inr (64, 128)"
proof -
  have a: "compute_output_coord 49 49 (98, 98) (2, 2) = Inr (0, 0)"
    by code_simp
  have b: "compute_output_coord 512 1024 (1024, 2048) (128, 256) = Inr (64, 128)"
    by code_simp
  from a b show ?thesis by simp
qed

end
